theory Spec2Isabelle
  imports Main
begin

section \<open>Data model of the parallel execution plan\<close>

text \<open>
  The development embeds \<^verbatim>\<open>core/framework/parallel_execution_plan.cc\<close>.
  The graph viewer, the session state and the stream handle registry are collaborators whose
  code is elsewhere; they enter as parameters (records of the queries the planner makes).
  A pointer to an immutable object is represented by the object, a null pointer by
  \<open>None\<close>. Every \<^verbatim>\<open>ORT_ENFORCE\<close>, null dereference and out-of-range access of the
  source is an \<open>Inl\<close> branch.
\<close>

type_synonym NodeIndex = nat
type_synonym NotificationIndex = nat
type_synonym ProviderType = string
type_synonym StreamHandle = nat

datatype error =
    NullDereference
  | OutOfBounds
  | UninitializedRead
  | BadArrayLength
  | EnforceFailed string

text \<open>An execution provider instance: \<open>ep_id\<close> stands for the object's identity.\<close>

record IExecutionProvider =
  ep_id :: nat
  ep_Type :: ProviderType

record Node =
  OpType :: string
  GetExecutionProviderType :: ProviderType
  InputNodes :: "NodeIndex list"
  OutputNodes :: "NodeIndex list"

record GraphViewer =
  GetNodesInTopologicalOrder :: "NodeIndex list"
  MaxNodeIndex :: nat
  GetNode :: "NodeIndex \<Rightarrow> Node option"

text \<open>
  The device stream. \<^verbatim>\<open>create_stream_fn()\<close> returns a fresh opaque handle on every call;
  the model numbers the handles in the order of the calls, so two streams are never equal.
\<close>

record Stream =
  handle :: StreamHandle
  provider :: IExecutionProvider

text \<open>
  The registry: only \<^verbatim>\<open>GetCreateStreamFn\<close> is checked against null by the source, so
  it is the one entry that may be missing here. The wait and notify functions looked up in
  the registry are kept as the lookup itself (a constructor applied to its arguments).
\<close>

record StreamHandleRegistry =
  GetCreateStreamFn :: "ProviderType \<Rightarrow> bool"

record SessionState =
  GetGraphViewer :: GraphViewer
  GetExecutionProviders :: "ProviderType \<Rightarrow> IExecutionProvider option"

datatype WaitFn = GetWaitHandle "Stream option" ProviderType

datatype NotifyFn = GetNotifyHandle Stream

text \<open>The three closures pushed onto a logic stream, with the values they capture.\<close>

datatype Command =
    Wait WaitFn "Stream option" NotificationIndex
  | Compute NodeIndex
  | Notify NotifyFn NotificationIndex

record LogicStream =
  device_streams :: "Stream list"
  commands :: "Command list"

text \<open>
  The state of the constructor: its local variables (\<open>nodes_in_stream\<close>,
  \<open>node_stream_map\<close>, \<open>stream_iter\<close>, \<open>num_notifications\<close>, \<open>node_to_notification\<close>),
  the number of device streams created so far, and the members of the plan
  (\<open>logic_streams\<close>, \<open>notification_owners\<close>, \<open>node_to_stream_map\<close>, the source's names
  without their trailing underscore).
\<close>

record PlanState =
  nodes_in_stream :: "NodeIndex list list"
  node_stream_map :: "NodeIndex \<rightharpoonup> nat"
  stream_iter :: nat
  num_notifications :: nat
  node_to_notification :: "NodeIndex \<rightharpoonup> NotificationIndex"
  streams_created :: nat
  logic_streams :: "LogicStream list"
  notification_owners :: "Stream option list"
  node_to_stream_map :: "NodeIndex \<rightharpoonup> Stream"

section \<open>The planner\<close>

text \<open>A range-for loop whose body may fail: the first failure ends the loop.\<close>

fun for_each :: "('a \<Rightarrow> 's \<Rightarrow> error + 's) \<Rightarrow> 'a list \<Rightarrow> 's \<Rightarrow> error + 's" where
  "for_each f [] s = Inr s"
| "for_each f (x # xs) s = (case f x s of Inl e \<Rightarrow> Inl e | Inr s' \<Rightarrow> for_each f xs s')"

definition push_device_stream :: "nat \<Rightarrow> Stream \<Rightarrow> LogicStream list \<Rightarrow> LogicStream list" where
  "push_device_stream i s ls =
     ls[i := (ls ! i)\<lparr>device_streams := device_streams (ls ! i) @ [s]\<rparr>]"

definition push_command :: "nat \<Rightarrow> Command \<Rightarrow> PlanState \<Rightarrow> PlanState" where
  "push_command i c st =
     st\<lparr>logic_streams := (logic_streams st)
        [i := (logic_streams st ! i)\<lparr>commands := commands (logic_streams st ! i) @ [c]\<rparr>]\<rparr>"

text \<open>The state after the logic streams are instantiated (lines 142-151).\<close>

definition initial_state :: "nat \<Rightarrow> PlanState" where
  "initial_state K =
     \<lparr>nodes_in_stream = replicate K [],
      node_stream_map = Map.empty,
      stream_iter = 0,
      num_notifications = 0,
      node_to_notification = Map.empty,
      streams_created = 0,
      logic_streams = replicate K \<lparr>device_streams = [], commands = []\<rparr>,
      notification_owners = [],
      node_to_stream_map = Map.empty\<rparr>"

subsection \<open>Pass 1: partition the nodes into streams\<close>

text \<open>
  The body of the loop at lines 154-159. With \<open>K = 0\<close> the array \<open>nodes_in_stream\<close> has no
  element and its first access is out of range, before the remainder by \<open>K\<close> is taken.
\<close>

definition partition_step :: "GraphViewer \<Rightarrow> nat \<Rightarrow> NodeIndex \<Rightarrow> PlanState \<Rightarrow> error + PlanState" where
  "partition_step g K node_index st =
     (if length (nodes_in_stream st) \<le> stream_iter st then Inl OutOfBounds
      else case GetNode g node_index of
        None \<Rightarrow> Inl NullDereference
      | Some node \<Rightarrow>
          if MaxNodeIndex g \<le> node_index then Inl OutOfBounds
          else Inr (st\<lparr>nodes_in_stream := (nodes_in_stream st)
                          [stream_iter st := nodes_in_stream st ! stream_iter st @ [node_index]],
                       node_stream_map := (node_stream_map st)(node_index \<mapsto> stream_iter st),
                       stream_iter := (stream_iter st + 1) mod K\<rparr>))"

definition partition_nodes :: "GraphViewer \<Rightarrow> nat \<Rightarrow> PlanState \<Rightarrow> error + PlanState" where
  "partition_nodes g K st = for_each (partition_step g K) (GetNodesInTopologicalOrder g) st"

subsection \<open>Pass 2: a notification for each node with a consumer in another stream\<close>

definition notification_step :: "GraphViewer \<Rightarrow> nat \<Rightarrow> NodeIndex \<Rightarrow> PlanState \<Rightarrow> error + PlanState" where
  "notification_step g i node_index st =
     (case GetNode g node_index of
        None \<Rightarrow> Inl NullDereference
      | Some node \<Rightarrow>
          if list_ex (\<lambda>out. out \<notin> set (nodes_in_stream st ! i)) (OutputNodes node)
          then Inr (st\<lparr>node_to_notification :=
                          (node_to_notification st)(node_index \<mapsto> num_notifications st),
                       num_notifications := num_notifications st + 1\<rparr>)
          else Inr st)"

definition generate_notifications :: "GraphViewer \<Rightarrow> nat \<Rightarrow> PlanState \<Rightarrow> error + PlanState" where
  "generate_notifications g K st =
     for_each (\<lambda>i st. for_each (notification_step g i) (nodes_in_stream st ! i) st) [0..<K] st"

subsection \<open>Pass 3: bind the nodes of each logic stream to device streams\<close>

text \<open>
  The loop body at lines 177-194; \<open>providers\<close> is the set local to the outer iteration.
  A provider that is not registered is a null \<open>ep\<close>, dereferenced by \<^verbatim>\<open>ep->Type()\<close>.
\<close>

definition find_stream :: "IExecutionProvider \<Rightarrow> Stream list \<Rightarrow> Stream option" where
  "find_stream ep streams = find (\<lambda>stream. provider stream = ep) streams"

definition bind_step ::
  "StreamHandleRegistry \<Rightarrow> SessionState \<Rightarrow> nat \<Rightarrow> NodeIndex \<Rightarrow>
   IExecutionProvider set \<times> PlanState \<Rightarrow> error + IExecutionProvider set \<times> PlanState" where
  "bind_step reg ss i node_index ps =
     (case GetNode (GetGraphViewer ss) node_index of
        None \<Rightarrow> Inl NullDereference
      | Some node \<Rightarrow>
         (case GetExecutionProviders ss (GetExecutionProviderType node) of
            None \<Rightarrow> Inl NullDereference
          | Some ep \<Rightarrow>
             (case (if ep \<notin> fst ps
                    then (if GetCreateStreamFn reg (ep_Type ep)
                          then Inr (insert ep (fst ps),
                                 (snd ps)\<lparr>logic_streams := push_device_stream i
                                      \<lparr>handle = streams_created (snd ps), provider = ep\<rparr>
                                      (logic_streams (snd ps)),
                                    streams_created := streams_created (snd ps) + 1\<rparr>)
                          else Inl (EnforceFailed ''create_stream_fn''))
                    else Inr ps) of
                Inl e \<Rightarrow> Inl e
              | Inr (providers, st) \<Rightarrow>
                 (case node_stream_map st node_index of
                    None \<Rightarrow> Inl UninitializedRead
                  | Some s \<Rightarrow>
                      if length (logic_streams st) \<le> s then Inl OutOfBounds
                      else (case find_stream ep (device_streams (logic_streams st ! s)) of
                              None \<Rightarrow> Inl (EnforceFailed ''stream_it != streams.end()'')
                            | Some stream \<Rightarrow>
                                Inr (providers,
                                     st\<lparr>node_to_stream_map :=
                                          (node_to_stream_map st)(node_index \<mapsto> stream)\<rparr>))))))"

definition bind_stream :: "StreamHandleRegistry \<Rightarrow> SessionState \<Rightarrow> nat \<Rightarrow> PlanState \<Rightarrow> error + PlanState" where
  "bind_stream reg ss i st =
     (case for_each (bind_step reg ss i) (nodes_in_stream st ! i) ({}, st) of
        Inl e \<Rightarrow> Inl e
      | Inr ps \<Rightarrow> Inr (snd ps))"

definition bind_device_streams :: "StreamHandleRegistry \<Rightarrow> SessionState \<Rightarrow> nat \<Rightarrow> PlanState \<Rightarrow> error + PlanState" where
  "bind_device_streams reg ss K st = for_each (bind_stream reg ss) [0..<K] st"

subsection \<open>Pass 4: set the notification owners\<close>

text \<open>
  Lines 197-213. Here a provider that is not registered is a null \<open>ep\<close> that no device
  stream has, so the enforcement after \<^verbatim>\<open>find_if\<close> fails.
\<close>

definition owner_step :: "SessionState \<Rightarrow> NodeIndex \<Rightarrow> PlanState \<Rightarrow> error + PlanState" where
  "owner_step ss node_index st =
     (case node_to_notification st node_index of
        None \<Rightarrow> Inr st
      | Some idx \<Rightarrow>
         (case GetNode (GetGraphViewer ss) node_index of
            None \<Rightarrow> Inl NullDereference
          | Some node \<Rightarrow>
             (case node_stream_map st node_index of
                None \<Rightarrow> Inl UninitializedRead
              | Some s \<Rightarrow>
                  if length (logic_streams st) \<le> s then Inl OutOfBounds
                  else (case GetExecutionProviders ss (GetExecutionProviderType node) of
                          None \<Rightarrow> Inl (EnforceFailed ''stream_it != streams.end()'')
                        | Some ep \<Rightarrow>
                           (case find_stream ep (device_streams (logic_streams st ! s)) of
                              None \<Rightarrow> Inl (EnforceFailed ''stream_it != streams.end()'')
                            | Some stream \<Rightarrow>
                                if length (notification_owners st) \<le> idx then Inl OutOfBounds
                                else Inr (st\<lparr>notification_owners :=
                                              (notification_owners st)[idx := Some stream]\<rparr>))))))"

definition set_notification_owners :: "SessionState \<Rightarrow> PlanState \<Rightarrow> error + PlanState" where
  "set_notification_owners ss st =
     for_each (owner_step ss) (GetNodesInTopologicalOrder (GetGraphViewer ss))
       (st\<lparr>notification_owners := replicate (num_notifications st) None\<rparr>)"

subsection \<open>Pass 5: add the commands to the logic streams\<close>

text \<open>
  The loop over the input nodes (lines 219-232). \<^verbatim>\<open>node_to_stream_map[node_index]\<close>
  is a lookup of a key that pass 3 has stored for every node of the stream; for an absent
  key the source would read a null pointer, here \<open>None\<close>.
\<close>

definition wait_step :: "nat \<Rightarrow> Node \<Rightarrow> NodeIndex \<Rightarrow> NodeIndex \<Rightarrow> PlanState \<Rightarrow> error + PlanState" where
  "wait_step i node node_index input st =
     (if input \<notin> set (nodes_in_stream st ! i)
      then (case node_to_notification st input of
              None \<Rightarrow> Inl (EnforceFailed ''notfication_it != node_to_notification.end()'')
            | Some notification_index \<Rightarrow>
                if length (notification_owners st) \<le> notification_index then Inl OutOfBounds
                else Inr (push_command i
                       (Wait (GetWaitHandle (notification_owners st ! notification_index)
                                (GetExecutionProviderType node))
                             (node_to_stream_map st node_index)
                             notification_index) st))
      else Inr st)"

definition command_step :: "SessionState \<Rightarrow> nat \<Rightarrow> NodeIndex \<Rightarrow> PlanState \<Rightarrow> error + PlanState" where
  "command_step ss i node_index st =
     (case GetNode (GetGraphViewer ss) node_index of
        None \<Rightarrow> Inl NullDereference
      | Some node \<Rightarrow>
         (case for_each (wait_step i node node_index) (InputNodes node) st of
            Inl e \<Rightarrow> Inl e
          | Inr st1 \<Rightarrow>
             (case GetExecutionProviders ss (GetExecutionProviderType node) of
                None \<Rightarrow> Inl (EnforceFailed ''stream_it != streams.end()'')
              | Some ep \<Rightarrow>
                 (case find_stream ep (device_streams (logic_streams st1 ! i)) of
                    None \<Rightarrow> Inl (EnforceFailed ''stream_it != streams.end()'')
                  | Some stream \<Rightarrow>
                     (case node_to_notification st1 node_index of
                        None \<Rightarrow> Inr (push_command i (Compute node_index) st1)
                      | Some notification_index \<Rightarrow>
                          Inr (push_command i (Notify (GetNotifyHandle stream) notification_index)
                                 (push_command i (Compute node_index) st1)))))))"

definition add_commands :: "SessionState \<Rightarrow> nat \<Rightarrow> PlanState \<Rightarrow> error + PlanState" where
  "add_commands ss K st =
     for_each (\<lambda>i st. for_each (command_step ss i) (nodes_in_stream st ! i) st) [0..<K] st"

subsection \<open>The constructor\<close>

text \<open>
  \<open>num_logic_streams\<close> is an \<^verbatim>\<open>int\<close>: a negative value makes the array-new of
  \<open>nodes_in_stream\<close> throw. The schedule printed at the end changes nothing and is left out.
\<close>

definition ParallelExecutionPlanImpl ::
  "StreamHandleRegistry \<Rightarrow> SessionState \<Rightarrow> int \<Rightarrow> error + PlanState" where
  "ParallelExecutionPlanImpl reg ss num_logic_streams =
     (if num_logic_streams < 0 then Inl BadArrayLength
      else
       (case partition_nodes (GetGraphViewer ss) (nat num_logic_streams)
               (initial_state (nat num_logic_streams)) of
          Inl e \<Rightarrow> Inl e
        | Inr st1 \<Rightarrow>
       (case generate_notifications (GetGraphViewer ss) (nat num_logic_streams) st1 of
          Inl e \<Rightarrow> Inl e
        | Inr st2 \<Rightarrow>
       (case bind_device_streams reg ss (nat num_logic_streams) st2 of
          Inl e \<Rightarrow> Inl e
        | Inr st3 \<Rightarrow>
       (case set_notification_owners ss st3 of
          Inl e \<Rightarrow> Inl e
        | Inr st4 \<Rightarrow> add_commands ss (nat num_logic_streams) st4)))))"

definition GetComputeStreamForNode :: "PlanState \<Rightarrow> NodeIndex \<Rightarrow> Stream option" where
  "GetComputeStreamForNode plan index = node_to_stream_map plan index"

section \<open>Execution\<close>

text \<open>
  The execution context (lines 44-73). \<^verbatim>\<open>create_notification_fn\<close> is a registry entry;
  the handle it returns is kept as the call: the stream handle it is given and the position
  of the call. The frame is the state the kernels work on, of any type \<open>'f\<close>.
\<close>

datatype NotificationHandle = create_notification_fn StreamHandle nat

datatype ReleaseNotificationFn = GetReleaseNotificationFn Stream

record Notification =
  notification_handle :: NotificationHandle
  notification_provider :: IExecutionProvider

record ExecutionContext =
  notifications :: "Notification list"
  notification_release_fns :: "ReleaseNotificationFn list"

definition context_step :: "Stream option \<Rightarrow> ExecutionContext \<Rightarrow> error + ExecutionContext" where
  "context_step owner ctx =
     (case owner of
        None \<Rightarrow> Inl NullDereference
      | Some s \<Rightarrow>
          Inr (ctx\<lparr>notifications := notifications ctx @
                     [\<lparr>notification_handle =
                         create_notification_fn (handle s) (length (notifications ctx)),
                       notification_provider = provider s\<rparr>],
                   notification_release_fns := notification_release_fns ctx @
                     [GetReleaseNotificationFn s]\<rparr>))"

definition new_ExecutionContext :: "Stream option list \<Rightarrow> error + ExecutionContext" where
  "new_ExecutionContext owners =
     for_each context_step owners \<lparr>notifications = [], notification_release_fns = []\<rparr>"

datatype Status = OK | Failure string

fun IsOK :: "Status \<Rightarrow> bool" where
  "IsOK OK = True"
| "IsOK (Failure msg) = False"

text \<open>The calls a logic stream makes on the registry's functions and on the kernels.\<close>

datatype Event =
    WaitCall WaitFn "Stream option" NotificationHandle
  | KernelCompute NodeIndex
  | NotifyCall NotifyFn NotificationHandle
  | FlushStream ProviderType StreamHandle
  | ReleaseStream ProviderType StreamHandle

record 'f RunState =
  frame :: 'f
  trace :: "Event list"

text \<open>
  One command called on the context. \<open>kernel_Compute\<close> is the session state's kernel of a
  node, run on the frame: it returns a status and the frame it leaves.
\<close>

fun run_command ::
  "(NodeIndex \<Rightarrow> 'f \<Rightarrow> Status \<times> 'f) \<Rightarrow> ExecutionContext \<Rightarrow> Command \<Rightarrow> 'f RunState \<Rightarrow>
   error + 'f RunState" where
  "run_command kernel_Compute ctx (Wait wait_handle cur_stream notification_index) s =
     (if length (notifications ctx) \<le> notification_index then Inl OutOfBounds
      else Inr (s\<lparr>trace := trace s @
                  [WaitCall wait_handle cur_stream
                     (notification_handle (notifications ctx ! notification_index))]\<rparr>))"
| "run_command kernel_Compute ctx (Compute node_index) s =
     (case kernel_Compute node_index (frame s) of
        (status, frame') \<Rightarrow>
          if IsOK status
          then Inr (s\<lparr>frame := frame', trace := trace s @ [KernelCompute node_index]\<rparr>)
          else Inl (EnforceFailed ''kernel fail!''))"
| "run_command kernel_Compute ctx (Notify notify_handle notification_index) s =
     (if length (notifications ctx) \<le> notification_index then Inl OutOfBounds
      else Inr (s\<lparr>trace := trace s @
                  [NotifyCall notify_handle
                     (notification_handle (notifications ctx ! notification_index))]\<rparr>))"

fun flush_streams :: "Stream list \<Rightarrow> Event list \<Rightarrow> Event list" where
  "flush_streams [] tr = tr"
| "flush_streams (device_stream # rest) tr =
     flush_streams rest (tr @ [FlushStream (ep_Type (provider device_stream)) (handle device_stream)])"

definition Run ::
  "(NodeIndex \<Rightarrow> 'f \<Rightarrow> Status \<times> 'f) \<Rightarrow> ExecutionContext \<Rightarrow> LogicStream \<Rightarrow> 'f RunState \<Rightarrow>
   error + 'f RunState" where
  "Run kernel_Compute ctx ls s =
     (case for_each (run_command kernel_Compute ctx) (commands ls) s of
        Inl e \<Rightarrow> Inl e
      | Inr s' \<Rightarrow> Inr (s'\<lparr>trace := flush_streams (device_streams ls) (trace s')\<rparr>))"

text \<open>The destructor of a logic stream (lines 97-102): the calls of \<open>release_stream_fn\<close>.\<close>

fun release_streams :: "Stream list \<Rightarrow> Event list \<Rightarrow> Event list" where
  "release_streams [] tr = tr"
| "release_streams (device_stream # rest) tr =
     release_streams rest
       (tr @ [ReleaseStream (ep_Type (provider device_stream)) (handle device_stream)])"

definition destroy_LogicStream :: "LogicStream \<Rightarrow> Event list \<Rightarrow> Event list" where
  "destroy_LogicStream ls tr = release_streams (device_streams ls) tr"

section \<open>The graph view's contract\<close>

text \<open>
  What the planner's claims take from the graph view: every node is listed once in the
  topological order, edges join listed nodes, and the input and output iterators of the
  two ends of an edge agree.
\<close>

definition output_nodes :: "GraphViewer \<Rightarrow> NodeIndex \<Rightarrow> NodeIndex list" where
  "output_nodes g n = (case GetNode g n of None \<Rightarrow> [] | Some node \<Rightarrow> OutputNodes node)"

definition input_nodes :: "GraphViewer \<Rightarrow> NodeIndex \<Rightarrow> NodeIndex list" where
  "input_nodes g n = (case GetNode g n of None \<Rightarrow> [] | Some node \<Rightarrow> InputNodes node)"

definition wf_graph :: "GraphViewer \<Rightarrow> bool" where
  "wf_graph g =
     (distinct (GetNodesInTopologicalOrder g) \<and>
      list_all (\<lambda>n. list_all (\<lambda>v. v \<in> set (GetNodesInTopologicalOrder g) \<and>
                                   n \<in> set (input_nodes g v)) (output_nodes g n) \<and>
                    list_all (\<lambda>p. p \<in> set (GetNodesInTopologicalOrder g) \<and>
                                   n \<in> set (output_nodes g p)) (input_nodes g n))
        (GetNodesInTopologicalOrder g))"

section \<open>Example inputs\<close>

definition cpu_ep :: IExecutionProvider where
  "cpu_ep = \<lparr>ep_id = 0, ep_Type = ''CPU''\<rparr>"

definition gpu_ep :: IExecutionProvider where
  "gpu_ep = \<lparr>ep_id = 1, ep_Type = ''GPU''\<rparr>"

text \<open>A logic stream that owns a CPU and a GPU device stream and has no command.\<close>

definition two_device_stream :: LogicStream where
  "two_device_stream =
     \<lparr>device_streams = [\<lparr>handle = 0, provider = cpu_ep\<rparr>, \<lparr>handle = 1, provider = gpu_ep\<rparr>],
      commands = []\<rparr>"

text \<open>
  Kernels on a frame that counts the kernels run: the kernel of node 1 fails, the others
  succeed. The context has no notification.
\<close>

definition failing_kernel :: "NodeIndex \<Rightarrow> nat \<Rightarrow> Status \<times> nat" where
  "failing_kernel n fr = (if n = 1 then Failure ''bad input'' else OK, fr + 1)"

definition empty_context :: ExecutionContext where
  "empty_context = \<lparr>notifications = [], notification_release_fns = []\<rparr>"

text \<open>
  The chain \<open>A \<rightarrow> B \<rightarrow> C\<close> with \<open>A\<close> and \<open>C\<close> on the CPU provider and \<open>B\<close> on the GPU
  provider, both providers registered with a stream factory.
\<close>

definition chain_graph :: GraphViewer where
  "chain_graph =
     \<lparr>GetNodesInTopologicalOrder = [0, 1, 2],
      MaxNodeIndex = 3,
      GetNode = map_of
        [(0, \<lparr>OpType = ''A'', GetExecutionProviderType = ''CPU'',
              InputNodes = [], OutputNodes = [1]\<rparr>),
         (1, \<lparr>OpType = ''B'', GetExecutionProviderType = ''GPU'',
              InputNodes = [0], OutputNodes = [2]\<rparr>),
         (2, \<lparr>OpType = ''C'', GetExecutionProviderType = ''CPU'',
              InputNodes = [1], OutputNodes = []\<rparr>)]\<rparr>"

definition chain_session :: SessionState where
  "chain_session =
     \<lparr>GetGraphViewer = chain_graph,
      GetExecutionProviders = map_of [(''CPU'', cpu_ep), (''GPU'', gpu_ep)]\<rparr>"

definition all_registered :: StreamHandleRegistry where
  "all_registered = \<lparr>GetCreateStreamFn = (\<lambda>provider_type. True)\<rparr>"

definition chain_plan :: "int \<Rightarrow> PlanState" where
  "chain_plan K = projr (ParallelExecutionPlanImpl all_registered chain_session K)"

section \<open>Predicates of the proofs\<close>

text \<open>
  What each pass establishes, stated on the constructor's state; the lemmas below prove
  these of the passes and the theorems of the plan follow from them.
\<close>

definition round_robin :: "nat \<Rightarrow> NodeIndex list \<Rightarrow> nat \<Rightarrow> NodeIndex list" where
  "round_robin K ns s = map (nth ns) (filter (\<lambda>i. i mod K = s) [0..<length ns])"

definition partitioned :: "nat \<Rightarrow> NodeIndex list \<Rightarrow> PlanState \<Rightarrow> bool" where
  "partitioned K ns st \<longleftrightarrow>
     length (nodes_in_stream st) = K \<and>
     stream_iter st = length ns mod K \<and>
     (\<forall>s<K. nodes_in_stream st ! s = round_robin K ns s) \<and>
     dom (node_stream_map st) = set ns \<and>
     (ns \<noteq> [] \<longrightarrow> 0 < K) \<and>
     (distinct ns \<longrightarrow> (\<forall>i<length ns. node_stream_map st (ns ! i) = Some (i mod K)))"

definition crossing :: "GraphViewer \<Rightarrow> NodeIndex list \<Rightarrow> NodeIndex \<Rightarrow> bool" where
  "crossing g stream n = list_ex (\<lambda>out. out \<notin> set stream) (output_nodes g n)"

definition notifying :: "GraphViewer \<Rightarrow> NodeIndex list list \<Rightarrow> nat \<Rightarrow> NodeIndex list" where
  "notifying g nis k = concat (map (\<lambda>i. filter (crossing g (nis ! i)) (nis ! i)) [0..<k])"

definition numbered :: "NodeIndex list \<Rightarrow> PlanState \<Rightarrow> bool" where
  "numbered L st \<longleftrightarrow>
     num_notifications st = length L \<and>
     (\<forall>n k. node_to_notification st n = Some k \<longleftrightarrow> k < length L \<and> L ! k = n)"

definition bound :: "SessionState \<Rightarrow> PlanState \<Rightarrow> bool" where
  "bound ss st \<longleftrightarrow>
     (\<forall>n stream. node_to_stream_map st n = Some stream \<longrightarrow>
        (\<exists>s node ep. node_stream_map st n = Some s \<and> s < length (logic_streams st) \<and>
           GetNode (GetGraphViewer ss) n = Some node \<and>
           GetExecutionProviders ss (GetExecutionProviderType node) = Some ep \<and>
           find_stream ep (device_streams (logic_streams st ! s)) = Some stream))"

definition same_locals :: "PlanState \<Rightarrow> PlanState \<Rightarrow> bool" where
  "same_locals st0 st \<longleftrightarrow>
     nodes_in_stream st = nodes_in_stream st0 \<and> node_stream_map st = node_stream_map st0 \<and>
     num_notifications st = num_notifications st0 \<and>
     node_to_notification st = node_to_notification st0 \<and>
     length (logic_streams st) = length (logic_streams st0) \<and>
     (\<forall>j. commands (logic_streams st ! j) = commands (logic_streams st0 ! j))"

definition owned :: "PlanState \<Rightarrow> NodeIndex list \<Rightarrow> PlanState \<Rightarrow> bool" where
  "owned st0 pre st \<longleftrightarrow>
     (\<exists>os. st = st0\<lparr>notification_owners := os\<rparr> \<and> length os = num_notifications st0 \<and>
        (\<forall>n\<in>set pre. \<forall>k. node_to_notification st0 n = Some k \<longrightarrow> k < length os \<and> os ! k \<noteq> None))"

definition append_commands :: "nat \<Rightarrow> Command list \<Rightarrow> PlanState \<Rightarrow> PlanState" where
  "append_commands i cs st =
     st\<lparr>logic_streams := (logic_streams st)
        [i := (logic_streams st ! i)\<lparr>commands := commands (logic_streams st ! i) @ cs\<rparr>]\<rparr>"

definition wait_command :: "PlanState \<Rightarrow> Node \<Rightarrow> NodeIndex \<Rightarrow> NodeIndex \<Rightarrow> Command" where
  "wait_command st node n p =
     Wait (GetWaitHandle (notification_owners st ! the (node_to_notification st p))
             (GetExecutionProviderType node))
          (node_to_stream_map st n) (the (node_to_notification st p))"

definition foreign_inputs :: "PlanState \<Rightarrow> nat \<Rightarrow> Node \<Rightarrow> NodeIndex list" where
  "foreign_inputs st i node = filter (\<lambda>p. p \<notin> set (nodes_in_stream st ! i)) (InputNodes node)"

definition node_commands :: "SessionState \<Rightarrow> PlanState \<Rightarrow> nat \<Rightarrow> NodeIndex \<Rightarrow> Command list" where
  "node_commands ss st i n =
     (case GetNode (GetGraphViewer ss) n of
        None \<Rightarrow> []
      | Some node \<Rightarrow>
          map (wait_command st node n) (foreign_inputs st i node) @ [Compute n] @
          (case node_to_notification st n of
             None \<Rightarrow> []
           | Some k \<Rightarrow>
               [Notify (GetNotifyHandle (the (find_stream
                   (the (GetExecutionProviders ss (GetExecutionProviderType node)))
                   (device_streams (logic_streams st ! i))))) k]))"

definition inputs_notified :: "SessionState \<Rightarrow> PlanState \<Rightarrow> nat \<Rightarrow> NodeIndex \<Rightarrow> bool" where
  "inputs_notified ss st i n \<longleftrightarrow>
     (\<exists>node. GetNode (GetGraphViewer ss) n = Some node \<and>
        (\<forall>p\<in>set (InputNodes node). p \<notin> set (nodes_in_stream st ! i) \<longrightarrow>
           (\<exists>k. node_to_notification st p = Some k \<and> k < length (notification_owners st))))"

definition emitted :: "SessionState \<Rightarrow> PlanState \<Rightarrow> nat \<Rightarrow> PlanState \<Rightarrow> bool" where
  "emitted ss st0 k st \<longleftrightarrow>
     nodes_in_stream st = nodes_in_stream st0 \<and> node_stream_map st = node_stream_map st0 \<and>
     num_notifications st = num_notifications st0 \<and>
     node_to_notification st = node_to_notification st0 \<and>
     notification_owners st = notification_owners st0 \<and>
     node_to_stream_map st = node_to_stream_map st0 \<and>
     length (logic_streams st) = length (logic_streams st0) \<and>
     (\<forall>j. device_streams (logic_streams st ! j) = device_streams (logic_streams st0 ! j)) \<and>
     (\<forall>j<length (logic_streams st0). commands (logic_streams st ! j) =
        (if j < k then commands (logic_streams st0 ! j) @
                       concat (map (node_commands ss st0 j) (nodes_in_stream st0 ! j))
         else commands (logic_streams st0 ! j))) \<and>
     (\<forall>j<k. \<forall>n\<in>set (nodes_in_stream st0 ! j). inputs_notified ss st0 j n)"

definition planned :: "SessionState \<Rightarrow> nat \<Rightarrow> PlanState \<Rightarrow> bool" where
  "planned ss K st \<longleftrightarrow>
     length (nodes_in_stream st) = K \<and>
     (GetNodesInTopologicalOrder (GetGraphViewer ss) \<noteq> [] \<longrightarrow> 0 < K) \<and>
     (\<forall>s<K. nodes_in_stream st ! s = round_robin K (GetNodesInTopologicalOrder (GetGraphViewer ss)) s) \<and>
     (\<forall>i<length (GetNodesInTopologicalOrder (GetGraphViewer ss)).
        node_stream_map st (GetNodesInTopologicalOrder (GetGraphViewer ss) ! i) = Some (i mod K)) \<and>
     numbered (notifying (GetGraphViewer ss) (nodes_in_stream st) K) st \<and>
     bound ss st \<and>
     dom (node_to_stream_map st) = set (GetNodesInTopologicalOrder (GetGraphViewer ss)) \<and>
     length (notification_owners st) = num_notifications st \<and>
     (\<forall>n\<in>set (GetNodesInTopologicalOrder (GetGraphViewer ss)). \<forall>k.
        node_to_notification st n = Some k \<longrightarrow> notification_owners st ! k \<noteq> None) \<and>
     length (logic_streams st) = K \<and>
     (\<forall>j<K. commands (logic_streams st ! j) =
        concat (map (node_commands ss st j) (nodes_in_stream st ! j))) \<and>
     (\<forall>j<K. \<forall>n\<in>set (nodes_in_stream st ! j). inputs_notified ss st j n)"

fun captured_index :: "Command \<Rightarrow> NotificationIndex option" where
  "captured_index (Wait wait_handle cur_stream notification_index) = Some notification_index"
| "captured_index (Compute node_index) = None"
| "captured_index (Notify notify_handle notification_index) = Some notification_index"

definition has_cross_stream_consumer :: "GraphViewer \<Rightarrow> PlanState \<Rightarrow> NodeIndex \<Rightarrow> bool" where
  "has_cross_stream_consumer g st u =
     list_ex (\<lambda>v. node_stream_map st v \<noteq> node_stream_map st u) (output_nodes g u)"

definition notification_producers :: "GraphViewer \<Rightarrow> PlanState \<Rightarrow> NodeIndex list" where
  "notification_producers g st =
     filter (has_cross_stream_consumer g st) (concat (nodes_in_stream st))"

section \<open>Loops\<close>

lemma for_each_append:
  "for_each f (xs @ ys) s =
     (case for_each f xs s of Inl e \<Rightarrow> Inl e | Inr s' \<Rightarrow> for_each f ys s')"
  by (induction xs arbitrary: s) (simp_all split: sum.splits)

section \<open>Destruction of a logic stream\<close>

lemma release_streams_append:
  "release_streams ds tr =
     tr @ map (\<lambda>d. ReleaseStream (ep_Type (provider d)) (handle d)) ds"
  by (induction ds arbitrary: tr) simp_all

text \<open>
  Claim C6, as the code has it: destroying a logic stream calls the release function once
  for each owned device stream, in the order in which the device streams were inserted
  (the order of \<open>device_streams\<close>), after whatever was called before.
\<close>

theorem destroy_LogicStream_releases_in_insertion_order:
  "destroy_LogicStream ls tr =
     tr @ map (\<lambda>d. ReleaseStream (ep_Type (provider d)) (handle d)) (device_streams ls)"
  by (simp add: destroy_LogicStream_def release_streams_append)

text \<open>
  Claim C6 as stated fails: with a CPU stream inserted before a GPU stream, the releases are
  not in the reverse of the insertion order.
\<close>

theorem destroy_LogicStream_not_reverse:
  "destroy_LogicStream two_device_stream [] \<noteq>
     map (\<lambda>d. ReleaseStream (ep_Type (provider d)) (handle d))
       (rev (device_streams two_device_stream))"
  by (simp add: destroy_LogicStream_def two_device_stream_def cpu_ep_def gpu_ep_def)

section \<open>The compute command\<close>

text \<open>
  Claim C8: a compute command fails, through the enforcement check, exactly when the
  kernel's \<open>Compute\<close> returns a status that is not OK, and then the run of the logic stream
  ends with that failure; on an OK status the command returns, having run the kernel on
  the frame, and the logic stream goes on with its next command.
\<close>

theorem compute_command_fatal_iff:
  "((\<exists>e. run_command kernel_Compute ctx (Compute n) s = Inl e) \<longleftrightarrow>
       \<not> IsOK (fst (kernel_Compute n (frame s)))) \<and>
   (\<not> IsOK (fst (kernel_Compute n (frame s))) \<longrightarrow>
       Run kernel_Compute ctx \<lparr>device_streams = ds, commands = Compute n # cs\<rparr> s =
         Inl (EnforceFailed ''kernel fail!'')) \<and>
   (IsOK (fst (kernel_Compute n (frame s))) \<longrightarrow>
       run_command kernel_Compute ctx (Compute n) s =
         Inr (s\<lparr>frame := snd (kernel_Compute n (frame s)),
               trace := trace s @ [KernelCompute n]\<rparr>) \<and>
       Run kernel_Compute ctx \<lparr>device_streams = ds, commands = Compute n # cs\<rparr> s =
         Run kernel_Compute ctx \<lparr>device_streams = ds, commands = cs\<rparr>
           (s\<lparr>frame := snd (kernel_Compute n (frame s)),
              trace := trace s @ [KernelCompute n]\<rparr>))"
  by (cases "kernel_Compute n (frame s)") (simp add: Run_def split: sum.splits)

theorem compute_command_fatal_iff_witness:
  "IsOK (fst (failing_kernel 0 (frame \<lparr>frame = 0, trace = []\<rparr>))) \<and>
   run_command failing_kernel empty_context (Compute 0) \<lparr>frame = 0, trace = []\<rparr> =
     Inr \<lparr>frame = 1, trace = [KernelCompute 0]\<rparr> \<and>
   \<not> IsOK (fst (failing_kernel 1 (frame \<lparr>frame = 0, trace = []\<rparr>))) \<and>
   Run failing_kernel empty_context \<lparr>device_streams = [], commands = [Compute 1, Compute 0]\<rparr>
     \<lparr>frame = 0, trace = []\<rparr> = Inl (EnforceFailed ''kernel fail!'')"
proof -
  have ok: "IsOK (fst (failing_kernel 0 (frame \<lparr>frame = 0, trace = []\<rparr>)))"
    by (simp add: failing_kernel_def)
  have bad: "\<not> IsOK (fst (failing_kernel 1 (frame \<lparr>frame = 0, trace = []\<rparr>)))"
    by (simp add: failing_kernel_def)
  from compute_command_fatal_iff[of failing_kernel empty_context 0 "\<lparr>frame = 0, trace = []\<rparr>"] ok
  have 1: "run_command failing_kernel empty_context (Compute 0) \<lparr>frame = 0, trace = []\<rparr> =
     Inr \<lparr>frame = 1, trace = [KernelCompute 0]\<rparr>"
    by (simp add: failing_kernel_def)
  from compute_command_fatal_iff[of failing_kernel empty_context 1 "\<lparr>frame = 0, trace = []\<rparr>"
      "[]" "[Compute 0]"] bad
  have 2: "Run failing_kernel empty_context \<lparr>device_streams = [], commands = [Compute 1, Compute 0]\<rparr>
     \<lparr>frame = 0, trace = []\<rparr> = Inl (EnforceFailed ''kernel fail!'')"
    by blast
  show ?thesis by (intro conjI ok bad 1 2)
qed

lemma for_each_preserves:
  assumes "for_each f xs s = Inr s'"
    and "\<And>x t t'. x \<in> set xs \<Longrightarrow> f x t = Inr t' \<Longrightarrow> h t' = h t"
  shows "h s' = h s"
  using assms
proof (induction xs arbitrary: s)
  case Nil
  then show ?case by simp
next
  case (Cons x xs)
  from Cons.prems(1) obtain t where t: "f x s = Inr t" "for_each f xs t = Inr s'"
    by (auto split: sum.splits)
  have "h s' = h t"
    by (rule Cons.IH[OF t(2)]) (use Cons.prems(2) in auto)
  moreover have "h t = h s" using Cons.prems(2)[of x s t] t(1) by simp
  ultimately show ?case by simp
qed

lemma for_each_snoc:
  "for_each f (xs @ [x]) s = Inr s' \<longleftrightarrow>
     (\<exists>t. for_each f xs s = Inr t \<and> f x t = Inr s')"
  by (auto simp: for_each_append split: sum.splits)

lemma for_each_upt_Suc:
  "for_each f [0..<Suc k] s = Inr s' \<longleftrightarrow>
     (\<exists>t. for_each f [0..<k] s = Inr t \<and> f k t = Inr s')"
  by (simp add: for_each_snoc del: for_each.simps)

section \<open>Pass 1 assigns the streams round-robin\<close>

lemma round_robin_snoc:
  "round_robin K (ns @ [n]) s =
     round_robin K ns s @ (if length ns mod K = s then [n] else [])"
  by (simp add: round_robin_def nth_append cong: map_cong)

lemma partition_step_partitioned:
  assumes "partition_step g K n st = Inr st'" and "partitioned K ns st"
  shows "partitioned K (ns @ [n]) st'"
proof -
  from assms(1) have it: "stream_iter st < length (nodes_in_stream st)"
    and st': "st' = st\<lparr>nodes_in_stream := (nodes_in_stream st)
                          [stream_iter st := nodes_in_stream st ! stream_iter st @ [n]],
                       node_stream_map := (node_stream_map st)(n \<mapsto> stream_iter st),
                       stream_iter := (stream_iter st + 1) mod K\<rparr>"
    by (auto simp: partition_step_def split: if_splits option.splits)
  from assms(2) have len: "length (nodes_in_stream st) = K"
    and iter: "stream_iter st = length ns mod K"
    and rr: "\<forall>s<K. nodes_in_stream st ! s = round_robin K ns s"
    and dm: "dom (node_stream_map st) = set ns"
    and nsm: "distinct ns \<longrightarrow> (\<forall>i<length ns. node_stream_map st (ns ! i) = Some (i mod K))"
    by (auto simp: partitioned_def)
  have K: "0 < K" using it len by simp
  have 1: "length (nodes_in_stream st') = K" using st' len by simp
  have 2: "stream_iter st' = length (ns @ [n]) mod K"
    using st' iter by (simp add: mod_Suc_eq)
  have 3: "\<forall>s<K. nodes_in_stream st' ! s = round_robin K (ns @ [n]) s"
    using st' rr len iter by (auto simp: round_robin_snoc nth_list_update)
  have 4: "dom (node_stream_map st') = set (ns @ [n])"
    using st' dm by auto
  have 5: "distinct (ns @ [n]) \<longrightarrow>
      (\<forall>i<length (ns @ [n]). node_stream_map st' ((ns @ [n]) ! i) = Some (i mod K))"
  proof (intro impI allI)
    fix i assume d: "distinct (ns @ [n])" and i: "i < length (ns @ [n])"
    show "node_stream_map st' ((ns @ [n]) ! i) = Some (i mod K)"
    proof (cases "i < length ns")
      case True
      then have "ns ! i \<noteq> n" using d by auto
      then show ?thesis using True nsm d st' by (simp add: nth_append)
    next
      case False
      then have "i = length ns" using i by simp
      then show ?thesis using st' iter by simp
    qed
  qed
  show ?thesis unfolding partitioned_def using 1 2 3 4 5 K by blast
qed

lemma for_each_partitioned:
  "for_each (partition_step g K) xs st = Inr st' \<Longrightarrow> partitioned K ns st \<Longrightarrow>
   partitioned K (ns @ xs) st'"
proof (induction xs arbitrary: st ns)
  case Nil
  then show ?case by simp
next
  case (Cons x xs)
  from Cons.prems(1) obtain t where t: "partition_step g K x st = Inr t"
      "for_each (partition_step g K) xs t = Inr st'"
    by (auto split: sum.splits)
  have "partitioned K (ns @ [x]) t" using partition_step_partitioned[OF t(1) Cons.prems(2)] .
  from Cons.IH[OF t(2) this] show ?case by simp
qed

lemma initial_partitioned: "partitioned K [] (initial_state K)"
  by (simp add: partitioned_def initial_state_def round_robin_def)

lemma partition_nodes_partitioned:
  "partition_nodes g K (initial_state K) = Inr st \<Longrightarrow>
   partitioned K (GetNodesInTopologicalOrder g) st"
  using for_each_partitioned[OF _ initial_partitioned] by (simp add: partition_nodes_def)

lemma partition_step_nodes:
  "partition_step g K n st = Inr st' \<Longrightarrow> GetNode g n \<noteq> None \<and> n < MaxNodeIndex g"
  by (auto simp: partition_step_def split: if_splits option.splits)

lemma partition_step_frame:
  "partition_step g K n st = Inr st' \<Longrightarrow>
     num_notifications st' = num_notifications st \<and>
     node_to_notification st' = node_to_notification st \<and>
     logic_streams st' = logic_streams st \<and> node_to_stream_map st' = node_to_stream_map st"
  by (auto simp: partition_step_def split: option.splits if_splits)

lemma partition_nodes_frame:
  assumes "partition_nodes g K st = Inr st'"
  shows "num_notifications st' = num_notifications st"
    "node_to_notification st' = node_to_notification st"
    "logic_streams st' = logic_streams st" "node_to_stream_map st' = node_to_stream_map st"
  using for_each_preserves[OF assms[unfolded partition_nodes_def], of num_notifications]
        for_each_preserves[OF assms[unfolded partition_nodes_def], of node_to_notification]
        for_each_preserves[OF assms[unfolded partition_nodes_def], of logic_streams]
        for_each_preserves[OF assms[unfolded partition_nodes_def], of node_to_stream_map]
        partition_step_frame[of g K]
  by blast+

lemma round_robin_mem:
  "n \<in> set (round_robin K ns s) \<longleftrightarrow> (\<exists>i<length ns. ns ! i = n \<and> i mod K = s)"
  by (auto simp: round_robin_def)

lemma round_robin_distinct: "distinct ns \<Longrightarrow> distinct (round_robin K ns s)"
  unfolding round_robin_def
  by (rule distinct_map[THEN iffD2]) (auto simp: inj_on_def nth_eq_iff_index_eq)

lemma round_robin_disjoint:
  "distinct ns \<Longrightarrow> n \<in> set (round_robin K ns s) \<Longrightarrow> n \<in> set (round_robin K ns s') \<Longrightarrow> s = s'"
  by (auto simp: round_robin_mem nth_eq_iff_index_eq)

lemma round_robin_one: "round_robin 1 ns 0 = ns"
  by (simp add: round_robin_def map_nth)

lemma round_robin_subset: "set (round_robin K ns s) \<subseteq> set ns"
  by (auto simp: round_robin_mem)

lemma round_robin_cover:
  "0 < K \<Longrightarrow> n \<in> set ns \<Longrightarrow> \<exists>s<K. n \<in> set (round_robin K ns s)"
proof -
  assume K: "0 < K" and "n \<in> set ns"
  then obtain i where i: "i < length ns" "ns ! i = n" by (auto simp: in_set_conv_nth)
  then have "n \<in> set (round_robin K ns (i mod K))" by (auto simp: round_robin_mem)
  then show ?thesis using K by (intro exI[of _ "i mod K"]) simp
qed

section \<open>Pass 2 numbers the producers in visiting order\<close>

lemma notification_step_numbered:
  assumes "notification_step g i n st = Inr st'" and "numbered L st" and "n \<notin> set L"
  shows "numbered (L @ (if crossing g (nodes_in_stream st ! i) n then [n] else [])) st'"
proof (cases "crossing g (nodes_in_stream st ! i) n")
  case False
  with assms(1) have "st' = st"
    by (auto simp: notification_step_def crossing_def output_nodes_def split: option.splits if_splits)
  with False assms(2) show ?thesis by simp
next
  case True
  with assms(1) have st': "st' = st\<lparr>node_to_notification :=
                          (node_to_notification st)(n \<mapsto> num_notifications st),
                       num_notifications := num_notifications st + 1\<rparr>"
    by (auto simp: notification_step_def crossing_def output_nodes_def split: option.splits if_splits)
  from assms(2) have num: "num_notifications st = length L"
    and n2n: "\<And>m k. node_to_notification st m = Some k \<longleftrightarrow> k < length L \<and> L ! k = m"
    by (auto simp: numbered_def)
  have "node_to_notification st' m = Some k \<longleftrightarrow> k < length (L @ [n]) \<and> (L @ [n]) ! k = m" for m k
  proof (cases "m = n")
    case True
    have "k < length L \<Longrightarrow> L ! k \<noteq> n" using assms(3) by auto
    then show ?thesis using True st' num by (auto simp: nth_append)
  next
    case False
    then show ?thesis using st' n2n[of m k] by (auto simp: nth_append)
  qed
  then show ?thesis using True st' num by (simp add: numbered_def)
qed

lemma notification_step_frame:
  "notification_step g i n st = Inr st' \<Longrightarrow>
     nodes_in_stream st' = nodes_in_stream st \<and> node_stream_map st' = node_stream_map st \<and>
     logic_streams st' = logic_streams st \<and> node_to_stream_map st' = node_to_stream_map st \<and>
     streams_created st' = streams_created st"
  by (auto simp: notification_step_def split: option.splits if_splits)

lemma for_each_notification_numbered:
  "for_each (notification_step g i) ns st = Inr st' \<Longrightarrow> numbered L st \<Longrightarrow>
   distinct ns \<Longrightarrow> set ns \<inter> set L = {} \<Longrightarrow>
   numbered (L @ filter (crossing g (nodes_in_stream st ! i)) ns) st'"
proof (induction ns arbitrary: st L)
  case Nil
  then show ?case by simp
next
  case (Cons n ns)
  from Cons.prems(1) obtain t where t: "notification_step g i n st = Inr t"
      "for_each (notification_step g i) ns t = Inr st'"
    by (auto split: sum.splits)
  let ?L = "L @ (if crossing g (nodes_in_stream st ! i) n then [n] else [])"
  have nL: "n \<notin> set L" using Cons.prems(4) by auto
  have 1: "numbered ?L t" using notification_step_numbered[OF t(1) Cons.prems(2) nL] .
  have 2: "distinct ns" using Cons.prems(3) by simp
  have 3: "set ns \<inter> set ?L = {}" using Cons.prems(3,4) by auto
  have 4: "nodes_in_stream t = nodes_in_stream st" using notification_step_frame[OF t(1)] by simp
  from Cons.IH[OF t(2) 1 2 3] show ?case by (auto simp: 4)
qed

lemma for_each_notification_frame:
  assumes "for_each (notification_step g i) ns st = Inr st'"
  shows "nodes_in_stream st' = nodes_in_stream st" "node_stream_map st' = node_stream_map st"
    "logic_streams st' = logic_streams st" "node_to_stream_map st' = node_to_stream_map st"
    "streams_created st' = streams_created st"
  using for_each_preserves[OF assms, of nodes_in_stream]
        for_each_preserves[OF assms, of node_stream_map]
        for_each_preserves[OF assms, of logic_streams]
        for_each_preserves[OF assms, of node_to_stream_map]
        for_each_preserves[OF assms, of streams_created]
        notification_step_frame[of g i]
  by blast+

lemma generate_notifications_frame:
  assumes "generate_notifications g K st = Inr st'"
  shows "nodes_in_stream st' = nodes_in_stream st" "node_stream_map st' = node_stream_map st"
    "logic_streams st' = logic_streams st" "node_to_stream_map st' = node_to_stream_map st"
    "streams_created st' = streams_created st"
  using for_each_preserves[OF assms[unfolded generate_notifications_def], of nodes_in_stream]
        for_each_preserves[OF assms[unfolded generate_notifications_def], of node_stream_map]
        for_each_preserves[OF assms[unfolded generate_notifications_def], of logic_streams]
        for_each_preserves[OF assms[unfolded generate_notifications_def], of node_to_stream_map]
        for_each_preserves[OF assms[unfolded generate_notifications_def], of streams_created]
        for_each_notification_frame[of g]
  by blast+

lemma notifying_subset: "k \<le> length nis \<Longrightarrow> n \<in> set (notifying g nis k) \<Longrightarrow> \<exists>i<k. n \<in> set (nis ! i)"
  by (auto simp: notifying_def)

lemma generate_notifications_numbered_aux:
  assumes dist: "\<And>i. i < length nis \<Longrightarrow> distinct (nis ! i)"
    and disj: "\<And>i j n. i < length nis \<Longrightarrow> j < length nis \<Longrightarrow> n \<in> set (nis ! i) \<Longrightarrow> n \<in> set (nis ! j) \<Longrightarrow> i = j"
  shows "k \<le> length nis \<Longrightarrow>
   for_each (\<lambda>i st. for_each (notification_step g i) (nodes_in_stream st ! i) st) [0..<k] st = Inr st' \<Longrightarrow>
   nodes_in_stream st = nis \<Longrightarrow> numbered [] st \<Longrightarrow>
   numbered (notifying g nis k) st' \<and> nodes_in_stream st' = nis"
proof (induction k arbitrary: st')
  case 0
  then show ?case by (simp add: notifying_def)
next
  case (Suc k)
  from Suc.prems(2) obtain t where t:
      "for_each (\<lambda>i st. for_each (notification_step g i) (nodes_in_stream st ! i) st) [0..<k] st = Inr t"
      "for_each (notification_step g k) (nodes_in_stream t ! k) t = Inr st'"
    by (auto simp: for_each_snoc)
  have k: "k \<le> length nis" "k < length nis" using Suc.prems(1) by simp_all
  from Suc.IH[OF k(1) t(1) Suc.prems(3,4)]
  have num: "numbered (notifying g nis k) t" and nis: "nodes_in_stream t = nis" by simp_all
  have d: "distinct (nis ! k)" using dist k by simp
  have e: "set (nis ! k) \<inter> set (notifying g nis k) = {}"
  proof -
    { fix n assume a: "n \<in> set (nis ! k)" and b: "n \<in> set (notifying g nis k)"
      from notifying_subset[OF k(1) b] obtain i where i: "i < k" "n \<in> set (nis ! i)" by blast
      then have "i = k" using disj[of i k n] a k by simp
      with i have False by simp }
    then show ?thesis by blast
  qed
  from for_each_notification_numbered[OF t(2)[unfolded nis] num d e]
  have "numbered (notifying g nis k @ filter (crossing g (nis ! k)) (nis ! k)) st'"
    by (simp add: nis)
  moreover have "nodes_in_stream st' = nis" using for_each_notification_frame(1)[OF t(2)] nis by simp
  ultimately show ?case by (simp add: notifying_def)
qed

lemma for_each_invariant:
  assumes "for_each f xs s = Inr s'" and "P s"
    and "\<And>x t t'. x \<in> set xs \<Longrightarrow> P t \<Longrightarrow> f x t = Inr t' \<Longrightarrow> P t'"
  shows "P s'"
  using assms
proof (induction xs arbitrary: s)
  case Nil
  then show ?case by simp
next
  case (Cons x xs)
  from Cons.prems(1) obtain t where t: "f x s = Inr t" "for_each f xs t = Inr s'"
    by (auto split: sum.splits)
  have "P t" using Cons.prems(3)[of x s t] Cons.prems(2) t(1) by simp
  show ?case
    by (rule Cons.IH[OF t(2) \<open>P t\<close>]) (use Cons.prems(3) in auto)
qed

lemma for_each_prefix_invariant:
  assumes "for_each f xs s = Inr s'" and "P [] s"
    and "\<And>pre x t t'. P pre t \<Longrightarrow> f x t = Inr t' \<Longrightarrow> P (pre @ [x]) t'"
  shows "P xs s'"
proof -
  have "for_each f xs s = Inr s' \<Longrightarrow> P pre s \<Longrightarrow> P (pre @ xs) s'" for pre
  proof (induction xs arbitrary: s pre)
    case Nil
    then show ?case by simp
  next
    case (Cons x xs)
    from Cons.prems(1) obtain t where t: "f x s = Inr t" "for_each f xs t = Inr s'"
      by (auto split: sum.splits)
    have "P (pre @ [x]) t" using assms(3)[OF Cons.prems(2) t(1)] .
    from Cons.IH[OF t(2) this] show ?case by simp
  qed
  from this[OF assms(1), of "[]"] assms(2) show ?thesis by simp
qed

section \<open>Pass 3 binds every node to a device stream of its logic stream\<close>

lemma find_stream_append:
  "find_stream ep ds = Some stream \<Longrightarrow> find_stream ep (ds @ ds2) = Some stream"
  unfolding find_stream_def by (induction ds) (auto split: if_splits)

lemma find_stream_Some:
  "find_stream ep ds = Some stream \<Longrightarrow> stream \<in> set ds \<and> provider stream = ep"
  unfolding find_stream_def by (auto simp: find_Some_iff)

lemma length_push_device_stream [simp]:
  "length (push_device_stream i s ls) = length ls"
  by (simp add: push_device_stream_def)

lemma commands_push_device_stream [simp]:
  "commands (push_device_stream i s ls ! j) = commands (ls ! j)"
  by (cases "i < length ls"; cases "i = j") (simp_all add: push_device_stream_def list_update_beyond)

lemma device_streams_push_device_stream:
  "device_streams (push_device_stream i s ls ! j) =
     (if j = i \<and> i < length ls then device_streams (ls ! j) @ [s] else device_streams (ls ! j))"
  by (cases "i < length ls"; cases "i = j") (simp_all add: push_device_stream_def list_update_beyond)

lemma find_stream_push_device_stream:
  "find_stream ep (device_streams (ls ! j)) = Some stream \<Longrightarrow>
   find_stream ep (device_streams (push_device_stream i s ls ! j)) = Some stream"
  by (auto simp: device_streams_push_device_stream find_stream_append)

lemma bind_step_effect:
  assumes "bind_step reg ss i n ps = Inr ps'"
  shows "\<exists>node ep s stream ls'.
     GetNode (GetGraphViewer ss) n = Some node \<and>
     GetExecutionProviders ss (GetExecutionProviderType node) = Some ep \<and>
     node_stream_map (snd ps) n = Some s \<and> s < length (logic_streams (snd ps)) \<and>
     (ls' = logic_streams (snd ps) \<or>
      ls' = push_device_stream i \<lparr>handle = streams_created (snd ps), provider = ep\<rparr>
              (logic_streams (snd ps))) \<and>
     find_stream ep (device_streams (ls' ! s)) = Some stream \<and>
     logic_streams (snd ps') = ls' \<and>
     node_to_stream_map (snd ps') = (node_to_stream_map (snd ps))(n \<mapsto> stream) \<and>
     nodes_in_stream (snd ps') = nodes_in_stream (snd ps) \<and>
     node_stream_map (snd ps') = node_stream_map (snd ps) \<and>
     num_notifications (snd ps') = num_notifications (snd ps) \<and>
     node_to_notification (snd ps') = node_to_notification (snd ps)"
  using assms unfolding bind_step_def
  by (auto split: option.splits if_splits sum.splits prod.splits)

lemma bind_step_bound:
  assumes "bind_step reg ss i n ps = Inr ps'" and "bound ss (snd ps)"
  shows "bound ss (snd ps')"
proof -
  from bind_step_effect[OF assms(1)] obtain node ep s stream ls' where e:
    "GetNode (GetGraphViewer ss) n = Some node"
    "GetExecutionProviders ss (GetExecutionProviderType node) = Some ep"
    "node_stream_map (snd ps) n = Some s" "s < length (logic_streams (snd ps))"
    "ls' = logic_streams (snd ps) \<or>
      ls' = push_device_stream i \<lparr>handle = streams_created (snd ps), provider = ep\<rparr>
              (logic_streams (snd ps))"
    "find_stream ep (device_streams (ls' ! s)) = Some stream"
    "logic_streams (snd ps') = ls'"
    "node_to_stream_map (snd ps') = (node_to_stream_map (snd ps))(n \<mapsto> stream)"
    "node_stream_map (snd ps') = node_stream_map (snd ps)"
    by blast
  have len: "length ls' = length (logic_streams (snd ps))" using e(5) by auto
  have keep: "find_stream ep' (device_streams (logic_streams (snd ps) ! j)) = Some x \<Longrightarrow>
      find_stream ep' (device_streams (ls' ! j)) = Some x" for ep' j x
    using e(5) find_stream_push_device_stream by auto
  show ?thesis unfolding bound_def
  proof (intro allI impI)
    fix m x assume m: "node_to_stream_map (snd ps') m = Some x"
    show "\<exists>s node ep. node_stream_map (snd ps') m = Some s \<and> s < length (logic_streams (snd ps')) \<and>
           GetNode (GetGraphViewer ss) m = Some node \<and>
           GetExecutionProviders ss (GetExecutionProviderType node) = Some ep \<and>
           find_stream ep (device_streams (logic_streams (snd ps') ! s)) = Some x"
    proof (cases "m = n")
      case True
      then have "x = stream" using m e(8) by simp
      then show ?thesis using True e len by auto
    next
      case False
      then have "node_to_stream_map (snd ps) m = Some x" using m e(8) by simp
      with assms(2) obtain s' node' ep' where o:
        "node_stream_map (snd ps) m = Some s'" "s' < length (logic_streams (snd ps))"
        "GetNode (GetGraphViewer ss) m = Some node'"
        "GetExecutionProviders ss (GetExecutionProviderType node') = Some ep'"
        "find_stream ep' (device_streams (logic_streams (snd ps) ! s')) = Some x"
        unfolding bound_def by blast
      from keep[OF o(5)] o e(7,9) len show ?thesis by auto
    qed
  qed
qed

lemma same_locals_refl: "same_locals st st"
  by (simp add: same_locals_def)

lemma same_locals_trans: "same_locals a b \<Longrightarrow> same_locals b c \<Longrightarrow> same_locals a c"
  by (simp add: same_locals_def)

lemma bind_step_same_locals:
  assumes "bind_step reg ss i n ps = Inr ps'"
  shows "same_locals (snd ps) (snd ps')"
proof -
  from bind_step_effect[OF assms] obtain ep ls' where e:
    "ls' = logic_streams (snd ps) \<or>
      ls' = push_device_stream i \<lparr>handle = streams_created (snd ps), provider = ep\<rparr>
              (logic_streams (snd ps))"
    "logic_streams (snd ps') = ls'"
    "nodes_in_stream (snd ps') = nodes_in_stream (snd ps)"
    "node_stream_map (snd ps') = node_stream_map (snd ps)"
    "num_notifications (snd ps') = num_notifications (snd ps)"
    "node_to_notification (snd ps') = node_to_notification (snd ps)"
    by blast
  from e(1) have "length ls' = length (logic_streams (snd ps))"
    and "\<forall>j. commands (ls' ! j) = commands (logic_streams (snd ps) ! j)"
    by auto
  with e show ?thesis by (simp add: same_locals_def)
qed

lemma bind_step_dom:
  assumes "bind_step reg ss i n ps = Inr ps'"
  shows "dom (node_to_stream_map (snd ps')) = insert n (dom (node_to_stream_map (snd ps)))"
proof -
  from bind_step_effect[OF assms] obtain stream where
    "node_to_stream_map (snd ps') = (node_to_stream_map (snd ps))(n \<mapsto> stream)"
    by blast
  then show ?thesis by simp
qed

lemma bind_stream_effect:
  assumes "bind_stream reg ss i st = Inr st'" and "bound ss st"
  shows "bound ss st' \<and> same_locals st st' \<and>
     dom (node_to_stream_map st') = dom (node_to_stream_map st) \<union> set (nodes_in_stream st ! i)"
proof -
  from assms(1) obtain ps' where
    ps': "for_each (bind_step reg ss i) (nodes_in_stream st ! i) ({}, st) = Inr ps'"
    and st': "st' = snd ps'"
    by (auto simp: bind_stream_def split: sum.splits)
  let ?P = "\<lambda>pre t. bound ss (snd t) \<and> same_locals st (snd t) \<and>
     dom (node_to_stream_map (snd t)) = dom (node_to_stream_map st) \<union> set pre"
  have "?P (nodes_in_stream st ! i) ps'"
  proof (rule for_each_prefix_invariant[OF ps', where P = ?P])
    show "?P [] ({}, st)" using assms(2) by (simp add: same_locals_refl)
  next
    fix pre x t t'
    assume P: "?P pre t" and step: "bind_step reg ss i x t = Inr t'"
    from bind_step_bound[OF step] P have 1: "bound ss (snd t')" by simp
    from bind_step_same_locals[OF step] P have 2: "same_locals st (snd t')"
      using same_locals_trans by blast
    from bind_step_dom[OF step] P
    have 3: "dom (node_to_stream_map (snd t')) = dom (node_to_stream_map st) \<union> set (pre @ [x])"
      by auto
    show "?P (pre @ [x]) t'" using 1 2 3 by blast
  qed
  then show ?thesis using st' by simp
qed

lemma bind_device_streams_effect:
  assumes "bind_device_streams reg ss K st = Inr st'" and "bound ss st"
  shows "bound ss st' \<and> same_locals st st' \<and>
     dom (node_to_stream_map st') =
       dom (node_to_stream_map st) \<union> (\<Union>i\<in>{0..<K}. set (nodes_in_stream st ! i))"
proof -
  let ?P = "\<lambda>pre t. bound ss t \<and> same_locals st t \<and>
     dom (node_to_stream_map t) =
       dom (node_to_stream_map st) \<union> (\<Union>i\<in>set pre. set (nodes_in_stream st ! i))"
  have "?P [0..<K] st'"
  proof (rule for_each_prefix_invariant[OF assms(1)[unfolded bind_device_streams_def], where P = ?P])
    show "?P [] st" using assms(2) by (simp add: same_locals_refl)
  next
    fix pre x t t'
    assume P: "?P pre t" and step: "bind_stream reg ss x t = Inr t'"
    from P have b: "bound ss t" and nis: "nodes_in_stream t = nodes_in_stream st"
      by (simp_all add: same_locals_def)
    from bind_stream_effect[OF step b] have e: "bound ss t'" "same_locals t t'"
      "dom (node_to_stream_map t') = dom (node_to_stream_map t) \<union> set (nodes_in_stream t ! x)"
      by simp_all
    have 2: "same_locals st t'" using P e(2) same_locals_trans by blast
    have 3: "dom (node_to_stream_map t') =
       dom (node_to_stream_map st) \<union> (\<Union>i\<in>set (pre @ [x]). set (nodes_in_stream st ! i))"
      using e(3) P nis by auto
    show "?P (pre @ [x]) t'" using e(1) 2 3 by blast
  qed
  then show ?thesis by simp
qed

section \<open>Pass 4 fills the notification owners\<close>

lemma owner_step_effect:
  assumes "owner_step ss n st = Inr st'"
  shows "\<exists>os. st' = st\<lparr>notification_owners := os\<rparr> \<and>
     length os = length (notification_owners st) \<and>
     (\<forall>k. notification_owners st ! k \<noteq> None \<longrightarrow> os ! k \<noteq> None) \<and>
     (\<forall>k. node_to_notification st n = Some k \<longrightarrow> k < length os \<and> os ! k \<noteq> None)"
proof (cases "node_to_notification st n")
  case None
  with assms have "st' = st" by (simp add: owner_step_def)
  then show ?thesis using None by (intro exI[of _ "notification_owners st"]) simp
next
  case (Some idx)
  with assms obtain stream where s: "idx < length (notification_owners st)"
    "st' = st\<lparr>notification_owners := (notification_owners st)[idx := Some stream]\<rparr>"
    by (auto simp: owner_step_def split: option.splits if_splits)
  show ?thesis
    using s Some
    by (intro exI[of _ "(notification_owners st)[idx := Some stream]"])
       (auto simp: nth_list_update)
qed

lemma owner_step_owned:
  assumes "owner_step ss n st = Inr st'" and "owned st0 pre st"
  shows "owned st0 (pre @ [n]) st'"
proof -
  from assms(2) obtain os where os: "st = st0\<lparr>notification_owners := os\<rparr>"
    "length os = num_notifications st0"
    "\<forall>m\<in>set pre. \<forall>k. node_to_notification st0 m = Some k \<longrightarrow> k < length os \<and> os ! k \<noteq> None"
    unfolding owned_def by blast
  from owner_step_effect[OF assms(1)] obtain os' where os': "st' = st\<lparr>notification_owners := os'\<rparr>"
    "length os' = length (notification_owners st)"
    "\<forall>k. notification_owners st ! k \<noteq> None \<longrightarrow> os' ! k \<noteq> None"
    "\<forall>k. node_to_notification st n = Some k \<longrightarrow> k < length os' \<and> os' ! k \<noteq> None"
    by blast
  have 1: "st' = st0\<lparr>notification_owners := os'\<rparr>" using os(1) os'(1) by simp
  have 2: "length os' = num_notifications st0" using os os'(2) by simp
  have 3: "\<forall>m\<in>set (pre @ [n]). \<forall>k. node_to_notification st0 m = Some k \<longrightarrow>
      k < length os' \<and> os' ! k \<noteq> None"
    using os os' by auto
  show ?thesis unfolding owned_def using 1 2 3 by blast
qed

lemma set_notification_owners_owned:
  assumes "set_notification_owners ss st = Inr st'"
  shows "owned st (GetNodesInTopologicalOrder (GetGraphViewer ss)) st'"
proof -
  let ?st0 = "st\<lparr>notification_owners := replicate (num_notifications st) None\<rparr>"
  have "owned st [] ?st0"
    unfolding owned_def by (intro exI[of _ "replicate (num_notifications st) None"]) simp
  from for_each_prefix_invariant[OF assms[unfolded set_notification_owners_def],
      where P = "owned st", OF this owner_step_owned]
  show ?thesis by simp
qed

section \<open>Pass 5 emits the commands of each node in turn\<close>

lemma push_command_append: "push_command i c st = append_commands i [c] st"
  by (simp add: push_command_def append_commands_def)

lemma append_commands_Nil: "append_commands i [] st = st"
  by (simp add: append_commands_def)

lemma append_commands_fields [simp]:
  "nodes_in_stream (append_commands i cs st) = nodes_in_stream st"
  "node_stream_map (append_commands i cs st) = node_stream_map st"
  "num_notifications (append_commands i cs st) = num_notifications st"
  "node_to_notification (append_commands i cs st) = node_to_notification st"
  "notification_owners (append_commands i cs st) = notification_owners st"
  "node_to_stream_map (append_commands i cs st) = node_to_stream_map st"
  "streams_created (append_commands i cs st) = streams_created st"
  "length (logic_streams (append_commands i cs st)) = length (logic_streams st)"
  by (simp_all add: append_commands_def)

lemma device_streams_append_commands [simp]:
  "device_streams (logic_streams (append_commands i cs st) ! j) = device_streams (logic_streams st ! j)"
  by (cases "i < length (logic_streams st)"; cases "i = j")
     (simp_all add: append_commands_def list_update_beyond)

lemma commands_append_commands:
  "i < length (logic_streams st) \<Longrightarrow>
   commands (logic_streams (append_commands i cs st) ! j) =
     (if j = i then commands (logic_streams st ! j) @ cs else commands (logic_streams st ! j))"
  by (simp add: append_commands_def nth_list_update)

lemma append_commands_twice:
  "i < length (logic_streams st) \<Longrightarrow>
   append_commands i cs2 (append_commands i cs1 st) = append_commands i (cs1 @ cs2) st"
  by (simp add: append_commands_def)

lemma wait_command_append_commands [simp]:
  "wait_command (append_commands i cs st) = wait_command st"
  by (intro ext) (simp add: wait_command_def)

lemma foreign_inputs_append_commands [simp]:
  "foreign_inputs (append_commands i cs st) = foreign_inputs st"
  by (intro ext) (simp add: foreign_inputs_def)

lemma node_commands_append_commands [simp]:
  "node_commands ss (append_commands i cs st) = node_commands ss st"
  by (intro ext) (simp add: node_commands_def split: option.splits)

lemma wait_step_effect:
  assumes "wait_step i node n p st = Inr st'"
  shows "st' = append_commands i
           (map (wait_command st node n) (filter (\<lambda>p. p \<notin> set (nodes_in_stream st ! i)) [p])) st \<and>
         (p \<notin> set (nodes_in_stream st ! i) \<longrightarrow>
            (\<exists>k. node_to_notification st p = Some k \<and> k < length (notification_owners st)))"
  using assms
  by (auto simp: wait_step_def push_command_append wait_command_def append_commands_Nil
           split: if_splits option.splits)

lemma for_each_wait_step:
  "for_each (wait_step i node n) ins st = Inr st' \<Longrightarrow> i < length (logic_streams st) \<Longrightarrow>
   st' = append_commands i
           (map (wait_command st node n) (filter (\<lambda>p. p \<notin> set (nodes_in_stream st ! i)) ins)) st \<and>
   (\<forall>p\<in>set ins. p \<notin> set (nodes_in_stream st ! i) \<longrightarrow>
      (\<exists>k. node_to_notification st p = Some k \<and> k < length (notification_owners st)))"
proof (induction ins arbitrary: st)
  case Nil
  then show ?case by (simp add: append_commands_Nil)
next
  case (Cons p ins)
  from Cons.prems(1) obtain t where t: "wait_step i node n p st = Inr t"
      "for_each (wait_step i node n) ins t = Inr st'"
    by (auto split: sum.splits)
  let ?c = "map (wait_command st node n) (filter (\<lambda>p. p \<notin> set (nodes_in_stream st ! i)) [p])"
  from wait_step_effect[OF t(1)] have e: "t = append_commands i ?c st"
    "p \<notin> set (nodes_in_stream st ! i) \<longrightarrow>
       (\<exists>k. node_to_notification st p = Some k \<and> k < length (notification_owners st))"
    by simp_all
  have len: "i < length (logic_streams t)" using e(1) Cons.prems(2) by simp
  from Cons.IH[OF t(2) len] have ih:
    "st' = append_commands i
       (map (wait_command t node n) (filter (\<lambda>p. p \<notin> set (nodes_in_stream t ! i)) ins)) t"
    "\<forall>p\<in>set ins. p \<notin> set (nodes_in_stream t ! i) \<longrightarrow>
      (\<exists>k. node_to_notification t p = Some k \<and> k < length (notification_owners t))"
    by simp_all
  have 1: "st' = append_commands i
       (map (wait_command st node n) (filter (\<lambda>p. p \<notin> set (nodes_in_stream st ! i)) (p # ins))) st"
    using ih(1) e(1) Cons.prems(2) by (simp add: append_commands_twice)
  have 2: "\<forall>q\<in>set (p # ins). q \<notin> set (nodes_in_stream st ! i) \<longrightarrow>
      (\<exists>k. node_to_notification st q = Some k \<and> k < length (notification_owners st))"
    using ih(2) e by simp
  show ?case using 1 2 by blast
qed

lemma inputs_notified_append_commands [simp]:
  "inputs_notified ss (append_commands i cs st) = inputs_notified ss st"
  by (intro ext) (simp add: inputs_notified_def)

lemma command_step_effect:
  assumes "command_step ss i n st = Inr st'" and "i < length (logic_streams st)"
  shows "st' = append_commands i (node_commands ss st i n) st \<and> inputs_notified ss st i n"
proof -
  from assms(1) obtain node st1 ep stream where o:
    "GetNode (GetGraphViewer ss) n = Some node"
    "for_each (wait_step i node n) (InputNodes node) st = Inr st1"
    "GetExecutionProviders ss (GetExecutionProviderType node) = Some ep"
    "find_stream ep (device_streams (logic_streams st1 ! i)) = Some stream"
    "st' = (case node_to_notification st1 n of
              None \<Rightarrow> push_command i (Compute n) st1
            | Some k \<Rightarrow> push_command i (Notify (GetNotifyHandle stream) k)
                          (push_command i (Compute n) st1))"
    by (auto simp: command_step_def split: option.splits sum.splits)
  from for_each_wait_step[OF o(2) assms(2)] have w:
    "st1 = append_commands i (map (wait_command st node n) (foreign_inputs st i node)) st"
    "\<forall>p\<in>set (InputNodes node). p \<notin> set (nodes_in_stream st ! i) \<longrightarrow>
      (\<exists>k. node_to_notification st p = Some k \<and> k < length (notification_owners st))"
    by (simp_all add: foreign_inputs_def)
  have f: "find_stream ep (device_streams (logic_streams st ! i)) = Some stream"
    using o(4) w(1) by simp
  have "st' = append_commands i (node_commands ss st i n) st"
    using o(1,3,5) w(1) f assms(2)
    by (simp add: node_commands_def push_command_append append_commands_twice split: option.splits)
  moreover have "inputs_notified ss st i n" using o(1) w(2) by (simp add: inputs_notified_def)
  ultimately show ?thesis by simp
qed

lemma for_each_command_step:
  "for_each (command_step ss i) ns st = Inr st' \<Longrightarrow> i < length (logic_streams st) \<Longrightarrow>
   st' = append_commands i (concat (map (node_commands ss st i) ns)) st \<and>
   (\<forall>n\<in>set ns. inputs_notified ss st i n)"
proof (induction ns arbitrary: st)
  case Nil
  then show ?case by (simp add: append_commands_Nil)
next
  case (Cons n ns)
  from Cons.prems(1) obtain t where t: "command_step ss i n st = Inr t"
      "for_each (command_step ss i) ns t = Inr st'"
    by (auto split: sum.splits)
  from command_step_effect[OF t(1) Cons.prems(2)]
  have e: "t = append_commands i (node_commands ss st i n) st" "inputs_notified ss st i n"
    by simp_all
  have len: "i < length (logic_streams t)" using e(1) Cons.prems(2) by simp
  from Cons.IH[OF t(2) len] have ih:
    "st' = append_commands i (concat (map (node_commands ss t i) ns)) t"
    "\<forall>n\<in>set ns. inputs_notified ss t i n" by simp_all
  have 1: "st' = append_commands i (concat (map (node_commands ss st i) (n # ns))) st"
    using ih(1) e(1) Cons.prems(2) by (simp add: append_commands_twice)
  have 2: "\<forall>m\<in>set (n # ns). inputs_notified ss st i m" using ih(2) e by simp
  show ?case using 1 2 by blast
qed

lemma node_commands_cong:
  assumes "nodes_in_stream st = nodes_in_stream st0"
    "node_to_notification st = node_to_notification st0"
    "notification_owners st = notification_owners st0"
    "node_to_stream_map st = node_to_stream_map st0"
    "\<forall>j. device_streams (logic_streams st ! j) = device_streams (logic_streams st0 ! j)"
  shows "node_commands ss st = node_commands ss st0"
  using assms
  by (intro ext) (simp add: node_commands_def wait_command_def foreign_inputs_def split: option.splits)

lemma inputs_notified_cong:
  assumes "nodes_in_stream st = nodes_in_stream st0"
    "node_to_notification st = node_to_notification st0"
    "notification_owners st = notification_owners st0"
  shows "inputs_notified ss st = inputs_notified ss st0"
  using assms by (intro ext) (simp add: inputs_notified_def)

lemma add_commands_emitted_aux:
  "k \<le> length (logic_streams st0) \<Longrightarrow>
   for_each (\<lambda>i st. for_each (command_step ss i) (nodes_in_stream st ! i) st) [0..<k] st0 = Inr st \<Longrightarrow>
   emitted ss st0 k st"
proof (induction k arbitrary: st)
  case 0
  then show ?case by (simp add: emitted_def)
next
  case (Suc k)
  from Suc.prems(2) obtain t where t:
      "for_each (\<lambda>i st. for_each (command_step ss i) (nodes_in_stream st ! i) st) [0..<k] st0 = Inr t"
      "for_each (command_step ss k) (nodes_in_stream t ! k) t = Inr st"
    by (auto simp: for_each_snoc)
  have k: "k \<le> length (logic_streams st0)" "k < length (logic_streams st0)"
    using Suc.prems(1) by simp_all
  from Suc.IH[OF k(1) t(1)] have ih: "emitted ss st0 k t" .
  then have kt: "k < length (logic_streams t)" using k by (simp add: emitted_def)
  from ih have nc: "node_commands ss t = node_commands ss st0"
    by (intro node_commands_cong) (simp_all add: emitted_def)
  from ih have inn: "inputs_notified ss t = inputs_notified ss st0"
    by (intro inputs_notified_cong) (simp_all add: emitted_def)
  from ih have nis: "nodes_in_stream t = nodes_in_stream st0" by (simp add: emitted_def)
  from for_each_command_step[OF t(2) kt]
  have e: "st = append_commands k (concat (map (node_commands ss st0 k) (nodes_in_stream st0 ! k))) t"
    "\<forall>n\<in>set (nodes_in_stream st0 ! k). inputs_notified ss st0 k n"
    by (simp_all add: nc inn nis)
  show ?case
    unfolding emitted_def
    using ih[unfolded emitted_def] e(2) kt k
    by (auto simp: e(1) commands_append_commands less_Suc_eq)
qed

lemma constructor_passes:
  assumes "ParallelExecutionPlanImpl reg ss K = Inr st"
  shows "\<exists>st1 st2 st3 st4. 0 \<le> K \<and>
     partition_nodes (GetGraphViewer ss) (nat K) (initial_state (nat K)) = Inr st1 \<and>
     generate_notifications (GetGraphViewer ss) (nat K) st1 = Inr st2 \<and>
     bind_device_streams reg ss (nat K) st2 = Inr st3 \<and>
     set_notification_owners ss st3 = Inr st4 \<and>
     add_commands ss (nat K) st4 = Inr st"
  using assms unfolding ParallelExecutionPlanImpl_def
  by (auto split: if_splits sum.splits)

lemma Union_round_robin:
  assumes "ns \<noteq> [] \<longrightarrow> 0 < K"
  shows "(\<Union>i\<in>{0..<K}. set (round_robin K ns i)) = set ns"
proof
  show "(\<Union>i\<in>{0..<K}. set (round_robin K ns i)) \<subseteq> set ns"
    using round_robin_subset by fastforce
  show "set ns \<subseteq> (\<Union>i\<in>{0..<K}. set (round_robin K ns i))"
  proof
    fix n assume n: "n \<in> set ns"
    then have "0 < K" using assms by auto
    from round_robin_cover[OF this n] show "n \<in> (\<Union>i\<in>{0..<K}. set (round_robin K ns i))"
      by auto
  qed
qed

lemma bound_cong:
  assumes "bound ss st0" "node_to_stream_map st = node_to_stream_map st0"
    "node_stream_map st = node_stream_map st0"
    "length (logic_streams st) = length (logic_streams st0)"
    "\<forall>j. device_streams (logic_streams st ! j) = device_streams (logic_streams st0 ! j)"
  shows "bound ss st"
  using assms unfolding bound_def by simp

lemma numbered_cong:
  assumes "numbered L st0" "num_notifications st = num_notifications st0"
    "node_to_notification st = node_to_notification st0"
  shows "numbered L st"
  using assms unfolding numbered_def by simp

lemma constructor_planned:
  assumes ok: "ParallelExecutionPlanImpl reg ss K = Inr st"
    and dist: "distinct (GetNodesInTopologicalOrder (GetGraphViewer ss))"
  shows "planned ss (nat K) st"
proof -
  let ?g = "GetGraphViewer ss" and ?k = "nat K"
  let ?topo = "GetNodesInTopologicalOrder ?g"
  from constructor_passes[OF ok] obtain st1 st2 st3 st4 where
    p1: "partition_nodes ?g ?k (initial_state ?k) = Inr st1" and
    p2: "generate_notifications ?g ?k st1 = Inr st2" and
    p3: "bind_device_streams reg ss ?k st2 = Inr st3" and
    p4: "set_notification_owners ss st3 = Inr st4" and
    p5: "add_commands ss ?k st4 = Inr st"
    by blast
  \<comment> \<open>pass 1\<close>
  from partition_nodes_partitioned[OF p1] have part: "partitioned ?k ?topo st1" .
  then have len1: "length (nodes_in_stream st1) = ?k"
    and pos: "?topo \<noteq> [] \<longrightarrow> 0 < ?k"
    and rr1: "\<forall>s<?k. nodes_in_stream st1 ! s = round_robin ?k ?topo s"
    and nsm1: "\<forall>i<length ?topo. node_stream_map st1 (?topo ! i) = Some (i mod ?k)"
    using dist by (simp_all add: partitioned_def)
  from partition_nodes_frame[OF p1] have f1: "num_notifications st1 = 0"
    "node_to_notification st1 = Map.empty"
    "logic_streams st1 = replicate ?k \<lparr>device_streams = [], commands = []\<rparr>"
    "node_to_stream_map st1 = Map.empty"
    by (simp_all add: initial_state_def)
  \<comment> \<open>pass 2\<close>
  have num1: "numbered [] st1" unfolding numbered_def f1 by simp
  have d1: "\<And>i. i < length (nodes_in_stream st1) \<Longrightarrow> distinct (nodes_in_stream st1 ! i)"
    using rr1 len1 round_robin_distinct[OF dist] by simp
  have e1: "\<And>i j n. i < length (nodes_in_stream st1) \<Longrightarrow> j < length (nodes_in_stream st1) \<Longrightarrow>
      n \<in> set (nodes_in_stream st1 ! i) \<Longrightarrow> n \<in> set (nodes_in_stream st1 ! j) \<Longrightarrow> i = j"
    using rr1 len1 round_robin_disjoint[OF dist] by simp
  from generate_notifications_numbered_aux[of "nodes_in_stream st1" ?k ?g st1 st2,
      OF d1 e1 _ p2[unfolded generate_notifications_def] refl num1] len1
  have num2: "numbered (notifying ?g (nodes_in_stream st1) ?k) st2" by simp
  from generate_notifications_frame[OF p2] have f2: "nodes_in_stream st2 = nodes_in_stream st1"
    "node_stream_map st2 = node_stream_map st1" "logic_streams st2 = logic_streams st1"
    "node_to_stream_map st2 = node_to_stream_map st1" by simp_all
  \<comment> \<open>pass 3\<close>
  have b2: "bound ss st2" unfolding bound_def f2(4) f1(4) by simp
  from bind_device_streams_effect[OF p3 b2] have b3: "bound ss st3"
    and sl3: "same_locals st2 st3"
    and dom3: "dom (node_to_stream_map st3) =
       dom (node_to_stream_map st2) \<union> (\<Union>i\<in>{0..<?k}. set (nodes_in_stream st2 ! i))"
    by simp_all
  have "(\<Union>i\<in>{0..<?k}. set (nodes_in_stream st1 ! i)) =
        (\<Union>i\<in>{0..<?k}. set (round_robin ?k ?topo i))"
    using rr1 by simp
  then have dom3': "dom (node_to_stream_map st3) = set ?topo"
    unfolding dom3 f2 f1 using Union_round_robin[OF pos] by simp
  \<comment> \<open>pass 4\<close>
  from set_notification_owners_owned[OF p4] obtain os where os:
    "st4 = st3\<lparr>notification_owners := os\<rparr>" "length os = num_notifications st3"
    "\<forall>n\<in>set ?topo. \<forall>k. node_to_notification st3 n = Some k \<longrightarrow> k < length os \<and> os ! k \<noteq> None"
    unfolding owned_def by blast
  \<comment> \<open>pass 5\<close>
  from sl3 have sl:
    "nodes_in_stream st3 = nodes_in_stream st2" "node_stream_map st3 = node_stream_map st2"
    "num_notifications st3 = num_notifications st2"
    "node_to_notification st3 = node_to_notification st2"
    "length (logic_streams st3) = length (logic_streams st2)"
    "\<And>j. commands (logic_streams st3 ! j) = commands (logic_streams st2 ! j)"
    unfolding same_locals_def by blast+
  have o4: "nodes_in_stream st4 = nodes_in_stream st3" "node_stream_map st4 = node_stream_map st3"
    "num_notifications st4 = num_notifications st3"
    "node_to_notification st4 = node_to_notification st3"
    "logic_streams st4 = logic_streams st3" "node_to_stream_map st4 = node_to_stream_map st3"
    "notification_owners st4 = os"
    unfolding os(1) by simp_all
  have len4: "length (logic_streams st4) = ?k"
    unfolding o4(5) sl(5) f2(3) f1(3) by simp
  have em: "emitted ss st4 ?k st"
    by (rule add_commands_emitted_aux[OF _ p5[unfolded add_commands_def]]) (simp add: len4)
  from em have e:
    "nodes_in_stream st = nodes_in_stream st4" "node_stream_map st = node_stream_map st4"
    "num_notifications st = num_notifications st4"
    "node_to_notification st = node_to_notification st4"
    "notification_owners st = notification_owners st4"
    "node_to_stream_map st = node_to_stream_map st4"
    "length (logic_streams st) = length (logic_streams st4)"
    "\<forall>j. device_streams (logic_streams st ! j) = device_streams (logic_streams st4 ! j)"
    "\<forall>j<length (logic_streams st4). commands (logic_streams st ! j) =
        (if j < ?k then commands (logic_streams st4 ! j) @
                       concat (map (node_commands ss st4 j) (nodes_in_stream st4 ! j))
         else commands (logic_streams st4 ! j))"
    "\<forall>j<?k. \<forall>n\<in>set (nodes_in_stream st4 ! j). inputs_notified ss st4 j n"
    unfolding emitted_def by blast+
  have c4: "commands (logic_streams st4 ! j) = []" if "j < ?k" for j
    unfolding o4(5) sl(6) f2(3) f1(3) using that by simp
  have nc: "node_commands ss st = node_commands ss st4"
    by (rule node_commands_cong) (fact e)+
  have inn: "inputs_notified ss st = inputs_notified ss st4"
    by (rule inputs_notified_cong) (fact e)+
  have nis: "nodes_in_stream st = nodes_in_stream st1"
    unfolding e(1) o4(1) sl(1) f2(1) ..
  have nsm: "node_stream_map st = node_stream_map st1"
    unfolding e(2) o4(2) sl(2) f2(2) ..
  have 1: "length (nodes_in_stream st) = ?k" unfolding nis by (fact len1)
  have 3: "\<forall>s<?k. nodes_in_stream st ! s = round_robin ?k ?topo s" unfolding nis by (fact rr1)
  have 4: "\<forall>i<length ?topo. node_stream_map st (?topo ! i) = Some (i mod ?k)"
    unfolding nsm by (fact nsm1)
  have 5: "numbered (notifying ?g (nodes_in_stream st) ?k) st"
  proof (rule numbered_cong[of _ st2])
    show "numbered (notifying ?g (nodes_in_stream st) ?k) st2" unfolding nis by (fact num2)
    show "num_notifications st = num_notifications st2" unfolding e(3) o4(3) sl(3) ..
    show "node_to_notification st = node_to_notification st2" unfolding e(4) o4(4) sl(4) ..
  qed
  have b4: "bound ss st4" using b3 unfolding bound_def o4 .
  have 6: "bound ss st"
    by (rule bound_cong[OF b4]) (fact e)+
  have 7: "dom (node_to_stream_map st) = set ?topo"
    unfolding e(6) o4(6) by (fact dom3')
  have 8: "length (notification_owners st) = num_notifications st"
    unfolding e(5) e(3) o4(7) o4(3) by (fact os(2))
  have 9: "\<forall>n\<in>set ?topo. \<forall>k. node_to_notification st n = Some k \<longrightarrow>
      notification_owners st ! k \<noteq> None"
    unfolding e(5) e(4) o4(7) o4(4) using os(3) by blast
  have 10: "length (logic_streams st) = ?k" unfolding e(7) by (fact len4)
  have 11: "\<forall>j<?k. commands (logic_streams st ! j) =
        concat (map (node_commands ss st j) (nodes_in_stream st ! j))"
  proof (intro allI impI)
    fix j assume j: "j < ?k"
    then have "commands (logic_streams st ! j) = commands (logic_streams st4 ! j) @
        concat (map (node_commands ss st4 j) (nodes_in_stream st4 ! j))"
      using e(9) len4 by simp
    then show "commands (logic_streams st ! j) =
        concat (map (node_commands ss st j) (nodes_in_stream st ! j))"
      unfolding nc e(1) using c4[OF j] by simp
  qed
  have 12: "\<forall>j<?k. \<forall>n\<in>set (nodes_in_stream st ! j). inputs_notified ss st j n"
    unfolding inn e(1) by (fact e(10))
  show ?thesis
    unfolding planned_def by (intro conjI 1 pos 3 4 5 6 7 8 9 10 11 12)
qed

lemma planned_in_stream_iff:
  assumes p: "planned ss K st"
    and dist: "distinct (GetNodesInTopologicalOrder (GetGraphViewer ss))"
    and n: "n \<in> set (GetNodesInTopologicalOrder (GetGraphViewer ss))" and s: "s < K"
  shows "n \<in> set (nodes_in_stream st ! s) \<longleftrightarrow> node_stream_map st n = Some s"
proof -
  let ?topo = "GetNodesInTopologicalOrder (GetGraphViewer ss)"
  from n obtain i where i: "i < length ?topo" "?topo ! i = n" by (auto simp: in_set_conv_nth)
  from p i have nsm: "node_stream_map st n = Some (i mod K)" unfolding planned_def by blast
  from p s have rr: "nodes_in_stream st ! s = round_robin K ?topo s" unfolding planned_def by blast
  have "n \<in> set (round_robin K ?topo s) \<longleftrightarrow> i mod K = s"
    using i dist by (auto simp: round_robin_mem nth_eq_iff_index_eq)
  then show ?thesis using nsm rr by auto
qed

lemma planned_stream_distinct:
  assumes "planned ss K st" "distinct (GetNodesInTopologicalOrder (GetGraphViewer ss))" "s < K"
  shows "distinct (nodes_in_stream st ! s)"
proof -
  from assms(1,3) have "nodes_in_stream st ! s =
      round_robin K (GetNodesInTopologicalOrder (GetGraphViewer ss)) s"
    unfolding planned_def by blast
  then show ?thesis using round_robin_distinct[OF assms(2)] by simp
qed

lemma planned_stream_subset:
  assumes "planned ss K st" "s < K"
  shows "set (nodes_in_stream st ! s) \<subseteq> set (GetNodesInTopologicalOrder (GetGraphViewer ss))"
proof -
  from assms have "nodes_in_stream st ! s =
      round_robin K (GetNodesInTopologicalOrder (GetGraphViewer ss)) s"
    unfolding planned_def by blast
  then show ?thesis using round_robin_subset by simp
qed

lemma planned_stream_of:
  assumes p: "planned ss K st"
    and n: "n \<in> set (GetNodesInTopologicalOrder (GetGraphViewer ss))"
  shows "\<exists>s<K. node_stream_map st n = Some s"
proof -
  let ?topo = "GetNodesInTopologicalOrder (GetGraphViewer ss)"
  from n obtain i where i: "i < length ?topo" "?topo ! i = n" by (auto simp: in_set_conv_nth)
  from p i have nsm: "node_stream_map st n = Some (i mod K)" unfolding planned_def by blast
  from n have "?topo \<noteq> []" by auto
  with p have "0 < K" unfolding planned_def by blast
  then show ?thesis using nsm by simp
qed

lemma planned_stream:
  "planned ss K st \<Longrightarrow> s < K \<Longrightarrow>
   nodes_in_stream st ! s = round_robin K (GetNodesInTopologicalOrder (GetGraphViewer ss)) s"
  unfolding planned_def by blast

lemma planned_commands:
  "planned ss K st \<Longrightarrow> s < K \<Longrightarrow>
   commands (logic_streams st ! s) = concat (map (node_commands ss st s) (nodes_in_stream st ! s))"
  unfolding planned_def by blast

lemma planned_GetNode:
  assumes "planned ss K st" "s < K" "n \<in> set (nodes_in_stream st ! s)"
  shows "\<exists>node. GetNode (GetGraphViewer ss) n = Some node"
proof -
  from assms have "inputs_notified ss st s n" unfolding planned_def by blast
  then show ?thesis unfolding inputs_notified_def by blast
qed

lemma numbered_inj:
  "numbered L st \<Longrightarrow> node_to_notification st u = Some k \<Longrightarrow>
   node_to_notification st v = Some k \<Longrightarrow> u = v"
  unfolding numbered_def by metis

lemma numbered_bound:
  "numbered L st \<Longrightarrow> node_to_notification st u = Some k \<Longrightarrow> k < num_notifications st"
  unfolding numbered_def by metis

lemma numbered_mem:
  "numbered L st \<Longrightarrow> node_to_notification st u = Some k \<Longrightarrow> u \<in> set L"
  unfolding numbered_def by (metis nth_mem)

lemma numbered_nth:
  "numbered L st \<Longrightarrow> k < num_notifications st \<Longrightarrow> node_to_notification st (L ! k) = Some k"
  unfolding numbered_def by metis

section \<open>Properties of the plan\<close>

text \<open>
  Claim C4: when the constructor succeeds on a graph view that lists each node once, the
  node at position \<open>i\<close> of the topological order is assigned to logic stream \<open>i mod K\<close>
  (in \<open>node_stream_map\<close> and in \<open>nodes_in_stream\<close>); every listed node is in exactly one
  logic stream, once, and has an entry in the node-to-stream map.
\<close>

theorem partition_round_robin_total:
  assumes "ParallelExecutionPlanImpl reg ss K = Inr st"
    and "distinct (GetNodesInTopologicalOrder (GetGraphViewer ss))"
  shows "(\<forall>i<length (GetNodesInTopologicalOrder (GetGraphViewer ss)).
           node_stream_map st (GetNodesInTopologicalOrder (GetGraphViewer ss) ! i) = Some (i mod nat K) \<and>
           GetNodesInTopologicalOrder (GetGraphViewer ss) ! i \<in> set (nodes_in_stream st ! (i mod nat K))) \<and>
         length (nodes_in_stream st) = nat K \<and>
         (\<forall>s<nat K. distinct (nodes_in_stream st ! s)) \<and>
         (\<forall>n\<in>set (GetNodesInTopologicalOrder (GetGraphViewer ss)).
            (\<exists>!s. s < nat K \<and> n \<in> set (nodes_in_stream st ! s)) \<and>
            (\<exists>stream. node_to_stream_map st n = Some stream))"
proof -
  let ?topo = "GetNodesInTopologicalOrder (GetGraphViewer ss)" and ?k = "nat K"
  have p: "planned ss ?k st" using constructor_planned[OF assms] .
  have 1: "node_stream_map st (?topo ! i) = Some (i mod ?k) \<and>
           ?topo ! i \<in> set (nodes_in_stream st ! (i mod ?k))" if i: "i < length ?topo" for i
  proof -
    have nsm: "node_stream_map st (?topo ! i) = Some (i mod ?k)"
      using p i unfolding planned_def by blast
    have mem: "?topo ! i \<in> set ?topo" using i by simp
    then have "?topo \<noteq> []" by auto
    then have k: "0 < ?k" using p unfolding planned_def by blast
    then have "i mod ?k < ?k" by simp
    from planned_in_stream_iff[OF p assms(2) mem this] nsm show ?thesis by simp
  qed
  have 2: "length (nodes_in_stream st) = ?k" using p unfolding planned_def by blast
  have 3: "\<forall>s<?k. distinct (nodes_in_stream st ! s)"
    using planned_stream_distinct[OF p assms(2)] by blast
  have 4: "(\<exists>!s. s < ?k \<and> n \<in> set (nodes_in_stream st ! s)) \<and>
           (\<exists>stream. node_to_stream_map st n = Some stream)" if n: "n \<in> set ?topo" for n
  proof -
    from planned_stream_of[OF p n] obtain s where s: "s < ?k" "node_stream_map st n = Some s"
      by blast
    have "\<exists>!s. s < ?k \<and> n \<in> set (nodes_in_stream st ! s)"
    proof (rule ex1I[of _ s])
      show "s < ?k \<and> n \<in> set (nodes_in_stream st ! s)"
        using planned_in_stream_iff[OF p assms(2) n s(1)] s by simp
    next
      fix s' assume "s' < ?k \<and> n \<in> set (nodes_in_stream st ! s')"
      then show "s' = s" using planned_in_stream_iff[OF p assms(2) n, of s'] s(2) by simp
    qed
    moreover have "n \<in> dom (node_to_stream_map st)" using p n unfolding planned_def by blast
    ultimately show ?thesis by blast
  qed
  show ?thesis using 1 2 3 4 by blast
qed

text \<open>
  Claim C10: \<open>GetComputeStreamForNode\<close> returns null exactly for the node indices that
  are not in the topological order; for a listed node it returns a device stream of the
  node's logic stream whose provider is the provider instance registered for the node's
  provider type.
\<close>

theorem GetComputeStreamForNode_planned:
  assumes "ParallelExecutionPlanImpl reg ss K = Inr st"
    and "distinct (GetNodesInTopologicalOrder (GetGraphViewer ss))"
  shows "(GetComputeStreamForNode st n = None \<longleftrightarrow>
            n \<notin> set (GetNodesInTopologicalOrder (GetGraphViewer ss))) \<and>
         (n \<in> set (GetNodesInTopologicalOrder (GetGraphViewer ss)) \<longrightarrow>
            (\<exists>stream s node ep.
               GetComputeStreamForNode st n = Some stream \<and>
               s < length (logic_streams st) \<and> n \<in> set (nodes_in_stream st ! s) \<and>
               stream \<in> set (device_streams (logic_streams st ! s)) \<and>
               GetNode (GetGraphViewer ss) n = Some node \<and>
               GetExecutionProviders ss (GetExecutionProviderType node) = Some ep \<and>
               provider stream = ep))"
proof -
  let ?topo = "GetNodesInTopologicalOrder (GetGraphViewer ss)" and ?k = "nat K"
  have p: "planned ss ?k st" using constructor_planned[OF assms] .
  have dm: "dom (node_to_stream_map st) = set ?topo" using p unfolding planned_def by blast
  have b: "bound ss st" using p unfolding planned_def by blast
  have len: "length (logic_streams st) = ?k" using p unfolding planned_def by blast
  have 1: "GetComputeStreamForNode st n = None \<longleftrightarrow> n \<notin> set ?topo"
    unfolding GetComputeStreamForNode_def using dm domIff by blast
  have 2: "\<exists>stream s node ep.
               GetComputeStreamForNode st n = Some stream \<and>
               s < length (logic_streams st) \<and> n \<in> set (nodes_in_stream st ! s) \<and>
               stream \<in> set (device_streams (logic_streams st ! s)) \<and>
               GetNode (GetGraphViewer ss) n = Some node \<and>
               GetExecutionProviders ss (GetExecutionProviderType node) = Some ep \<and>
               provider stream = ep" if n: "n \<in> set ?topo"
  proof -
    from n dm obtain stream where stream: "node_to_stream_map st n = Some stream" by blast
    with b obtain s node ep where o: "node_stream_map st n = Some s"
      "s < length (logic_streams st)" "GetNode (GetGraphViewer ss) n = Some node"
      "GetExecutionProviders ss (GetExecutionProviderType node) = Some ep"
      "find_stream ep (device_streams (logic_streams st ! s)) = Some stream"
      unfolding bound_def by blast
    have "n \<in> set (nodes_in_stream st ! s)"
      using planned_in_stream_iff[OF p assms(2) n, of s] o(1,2) len by simp
    with o find_stream_Some[OF o(5)] stream show ?thesis
      by (auto simp: GetComputeStreamForNode_def)
  qed
  show ?thesis using 1 2 by blast
qed

lemma wf_graph_distinct: "wf_graph g \<Longrightarrow> distinct (GetNodesInTopologicalOrder g)"
  by (simp add: wf_graph_def)

lemma wf_graph_output:
  "wf_graph g \<Longrightarrow> n \<in> set (GetNodesInTopologicalOrder g) \<Longrightarrow> v \<in> set (output_nodes g n) \<Longrightarrow>
   v \<in> set (GetNodesInTopologicalOrder g) \<and> n \<in> set (input_nodes g v)"
  unfolding wf_graph_def list_all_iff by blast

lemma wf_graph_input:
  "wf_graph g \<Longrightarrow> n \<in> set (GetNodesInTopologicalOrder g) \<Longrightarrow> p \<in> set (input_nodes g n) \<Longrightarrow>
   p \<in> set (GetNodesInTopologicalOrder g) \<and> n \<in> set (output_nodes g p)"
  unfolding wf_graph_def list_all_iff by blast

lemma node_commands_Some:
  "GetNode (GetGraphViewer ss) n = Some node \<Longrightarrow>
   node_commands ss st i n =
     map (wait_command st node n) (foreign_inputs st i node) @ Compute n #
     (case node_to_notification st n of
        None \<Rightarrow> []
      | Some k \<Rightarrow> [Notify (GetNotifyHandle (the (find_stream
                   (the (GetExecutionProviders ss (GetExecutionProviderType node)))
                   (device_streams (logic_streams st ! i))))) k])"
  by (simp add: node_commands_def)

lemma planned_command_cases:
  assumes p: "planned ss K st" and s: "s < K"
    and c: "c \<in> set (commands (logic_streams st ! s))"
  obtains
    (wait) n node q k where "n \<in> set (nodes_in_stream st ! s)"
      "GetNode (GetGraphViewer ss) n = Some node"
      "q \<in> set (InputNodes node)" "q \<notin> set (nodes_in_stream st ! s)"
      "node_to_notification st q = Some k" "k < length (notification_owners st)"
      "c = Wait (GetWaitHandle (notification_owners st ! k) (GetExecutionProviderType node))
             (node_to_stream_map st n) k"
  | (compute) n node where "n \<in> set (nodes_in_stream st ! s)"
      "GetNode (GetGraphViewer ss) n = Some node" "c = Compute n"
  | (notify) n node h k where "n \<in> set (nodes_in_stream st ! s)"
      "GetNode (GetGraphViewer ss) n = Some node"
      "node_to_notification st n = Some k" "c = Notify h k"
proof -
  from p s have cm: "commands (logic_streams st ! s) =
      concat (map (node_commands ss st s) (nodes_in_stream st ! s))"
    unfolding planned_def by blast
  with c obtain n where n: "n \<in> set (nodes_in_stream st ! s)" "c \<in> set (node_commands ss st s n)"
    by auto
  from p s n(1) have inn: "inputs_notified ss st s n" unfolding planned_def by blast
  then obtain node where node: "GetNode (GetGraphViewer ss) n = Some node"
    and ins: "\<forall>q\<in>set (InputNodes node). q \<notin> set (nodes_in_stream st ! s) \<longrightarrow>
           (\<exists>k. node_to_notification st q = Some k \<and> k < length (notification_owners st))"
    unfolding inputs_notified_def by blast
  let ?h = "GetNotifyHandle (the (find_stream
                   (the (GetExecutionProviders ss (GetExecutionProviderType node)))
                   (device_streams (logic_streams st ! s))))"
  from n(2) have "c \<in> set (map (wait_command st node n) (foreign_inputs st s node)) \<or>
      c = Compute n \<or> (\<exists>k. node_to_notification st n = Some k \<and> c = Notify ?h k)"
    unfolding node_commands_Some[OF node] by (cases "node_to_notification st n") auto
  then consider
      (w) q where "q \<in> set (foreign_inputs st s node)" "c = wait_command st node n q"
    | (c) "c = Compute n"
    | (n) k where "node_to_notification st n = Some k" "c = Notify ?h k"
    by auto
  then show thesis
  proof cases
    case w
    then have q: "q \<in> set (InputNodes node)" "q \<notin> set (nodes_in_stream st ! s)"
      by (simp_all add: foreign_inputs_def)
    with ins obtain k where k: "node_to_notification st q = Some k"
      "k < length (notification_owners st)" by blast
    have "c = Wait (GetWaitHandle (notification_owners st ! k) (GetExecutionProviderType node))
                   (node_to_stream_map st n) k"
      using w(2) k(1) by (simp add: wait_command_def)
    then show thesis using wait[OF n(1) node q k] by simp
  next
    case c
    then show thesis using compute[OF n(1) node] by simp
  next
    case n
    then show thesis using notify[OF \<open>n \<in> set (nodes_in_stream st ! s)\<close> node] by simp
  qed
qed

lemma for_each_context_step:
  "\<forall>owner\<in>set owners. owner \<noteq> None \<Longrightarrow>
   \<exists>ctx'. for_each context_step owners ctx = Inr ctx' \<and>
      length (notifications ctx') = length (notifications ctx) + length owners"
proof (induction owners arbitrary: ctx)
  case Nil
  then show ?case by simp
next
  case (Cons owner owners)
  then obtain s where s: "owner = Some s" by auto
  let ?ctx = "ctx\<lparr>notifications := notifications ctx @
                     [\<lparr>notification_handle =
                         create_notification_fn (handle s) (length (notifications ctx)),
                       notification_provider = provider s\<rparr>],
                   notification_release_fns := notification_release_fns ctx @
                     [GetReleaseNotificationFn s]\<rparr>"
  have step: "context_step owner ctx = Inr ?ctx" using s by (simp add: context_step_def)
  from Cons.IH[of ?ctx] Cons.prems obtain ctx' where
    "for_each context_step owners ?ctx = Inr ctx'"
    "length (notifications ctx') = length (notifications ?ctx) + length owners"
    by auto
  then show ?case using step by simp
qed

lemma run_command_in_bounds:
  "(\<And>i. captured_index c = Some i \<Longrightarrow> i < length (notifications ctx)) \<Longrightarrow>
   run_command kc ctx c rs \<noteq> Inl OutOfBounds"
  by (cases c) (auto split: prod.splits)

text \<open>
  Claim C9: every notification index captured by a wait or notify command of the plan is
  below the size of the notification owners vector; the execution context built from that
  vector has exactly as many notifications, so no command of the plan reads the
  notification array out of bounds.
\<close>

theorem notification_indices_in_bounds:
  assumes "ParallelExecutionPlanImpl reg ss K = Inr st"
    and "distinct (GetNodesInTopologicalOrder (GetGraphViewer ss))"
  shows "(\<forall>s<length (logic_streams st). \<forall>c\<in>set (commands (logic_streams st ! s)).
            \<forall>i. captured_index c = Some i \<longrightarrow> i < length (notification_owners st)) \<and>
         (\<exists>ctx. new_ExecutionContext (notification_owners st) = Inr ctx \<and>
            length (notifications ctx) = length (notification_owners st) \<and>
            (\<forall>s<length (logic_streams st). \<forall>c\<in>set (commands (logic_streams st ! s)).
               \<forall>kernel_Compute rs. run_command kernel_Compute ctx c rs \<noteq> Inl OutOfBounds))"
proof -
  let ?topo = "GetNodesInTopologicalOrder (GetGraphViewer ss)" and ?k = "nat K"
  let ?L = "notifying (GetGraphViewer ss) (nodes_in_stream st) ?k"
  have p: "planned ss ?k st" using constructor_planned[OF assms] .
  have len: "length (logic_streams st) = ?k" using p unfolding planned_def by blast
  have lnis: "length (nodes_in_stream st) = ?k" using p unfolding planned_def by blast
  have num: "numbered ?L st" using p unfolding planned_def by blast
  have own: "length (notification_owners st) = num_notifications st"
    using p unfolding planned_def by blast
  have filled: "\<forall>n\<in>set ?topo. \<forall>k. node_to_notification st n = Some k \<longrightarrow>
        notification_owners st ! k \<noteq> None"
    using p unfolding planned_def by blast
  have 1: "i < length (notification_owners st)"
    if s: "s < length (logic_streams st)" and c: "c \<in> set (commands (logic_streams st ! s))"
      and i: "captured_index c = Some i" for s c i
  proof -
    from s len have s': "s < ?k" by simp
    show ?thesis
    proof (rule planned_command_cases[OF p s' c], goal_cases)
      case (1 n node q k)
      then show ?thesis using i by simp
    next
      case (2 n node)
      then show ?thesis using i by simp
    next
      case (3 n node h k)
      then show ?thesis using i numbered_bound[OF num 3(3)] own by simp
    qed
  qed
  have "\<forall>owner\<in>set (notification_owners st). owner \<noteq> None"
  proof
    fix owner assume "owner \<in> set (notification_owners st)"
    then obtain k where k: "k < length (notification_owners st)" "notification_owners st ! k = owner"
      by (auto simp: in_set_conv_nth)
    then have kn: "k < num_notifications st" using own by simp
    from numbered_nth[OF num kn] have n2n: "node_to_notification st (?L ! k) = Some k" .
    have "?L ! k \<in> set ?L" using kn num by (simp add: numbered_def)
    from notifying_subset[OF _ this] lnis obtain i where
      "i < ?k" "?L ! k \<in> set (nodes_in_stream st ! i)" by auto
    then have "?L ! k \<in> set ?topo" using planned_stream_subset[OF p] by blast
    with filled n2n k(2) show "owner \<noteq> None" by blast
  qed
  from for_each_context_step[OF this, of "\<lparr>notifications = [], notification_release_fns = []\<rparr>"]
  obtain ctx where ctx: "new_ExecutionContext (notification_owners st) = Inr ctx"
    "length (notifications ctx) = length (notification_owners st)"
    by (auto simp: new_ExecutionContext_def)
  have 2: "run_command kc ctx c rs \<noteq> Inl OutOfBounds"
    if "s < length (logic_streams st)" "c \<in> set (commands (logic_streams st ! s))" for s c kc rs
    by (rule run_command_in_bounds) (use 1[OF that] ctx(2) in simp)
  show ?thesis
  proof (intro conjI allI impI ballI)
    fix s c i
    assume "s < length (logic_streams st)" "c \<in> set (commands (logic_streams st ! s))"
      "captured_index c = Some i"
    then show "i < length (notification_owners st)" by (rule 1)
  next
    show "\<exists>ctx. new_ExecutionContext (notification_owners st) = Inr ctx \<and>
            length (notifications ctx) = length (notification_owners st) \<and>
            (\<forall>s<length (logic_streams st). \<forall>c\<in>set (commands (logic_streams st ! s)).
               \<forall>kernel_Compute rs. run_command kernel_Compute ctx c rs \<noteq> Inl OutOfBounds)"
    proof (intro exI[of _ ctx] conjI allI impI ballI)
      show "new_ExecutionContext (notification_owners st) = Inr ctx" by (fact ctx(1))
      show "length (notifications ctx) = length (notification_owners st)" by (fact ctx(2))
    next
      fix s c kernel_Compute rs
      assume "s < length (logic_streams st)" "c \<in> set (commands (logic_streams st ! s))"
      then show "run_command kernel_Compute ctx c rs \<noteq> Inl OutOfBounds" by (rule 2)
    qed
  qed
qed

text \<open>
  Claim C7: with one logic stream, on a well-formed graph view, the plan has no
  notification, its single logic stream holds every node, and the command list is the
  compute commands of the nodes in the graph view's topological order, with no wait and
  no notify.
\<close>

theorem single_stream_plan:
  assumes ok: "ParallelExecutionPlanImpl reg ss 1 = Inr st"
    and wf: "wf_graph (GetGraphViewer ss)"
  shows "num_notifications st = 0 \<and> notification_owners st = [] \<and>
         length (logic_streams st) = 1 \<and>
         nodes_in_stream st = [GetNodesInTopologicalOrder (GetGraphViewer ss)] \<and>
         commands (logic_streams st ! 0) =
           map Compute (GetNodesInTopologicalOrder (GetGraphViewer ss))"
proof -
  let ?g = "GetGraphViewer ss"
  let ?topo = "GetNodesInTopologicalOrder ?g"
  have p: "planned ss 1 st" using constructor_planned[OF ok wf_graph_distinct[OF wf]] by simp
  have lnis: "length (nodes_in_stream st) = 1" using p unfolding planned_def by blast
  have "nodes_in_stream st ! 0 = round_robin 1 ?topo 0"
    using planned_stream[OF p, of 0] by simp
  then have n0: "nodes_in_stream st ! 0 = ?topo" by (simp only: round_robin_one)
  have nis: "nodes_in_stream st = [?topo]"
    using lnis n0 by (cases "nodes_in_stream st") auto
  have cr: "\<not> crossing ?g ?topo n" if "n \<in> set ?topo" for n
    using wf_graph_output[OF wf that] by (auto simp: crossing_def list_ex_iff)
  have "notifying ?g (nodes_in_stream st) 1 = []"
    using cr by (simp add: notifying_def n0)
  moreover have "numbered (notifying ?g (nodes_in_stream st) 1) st"
    using p unfolding planned_def by blast
  ultimately have num: "numbered [] st" by simp
  then have 1: "num_notifications st = 0" and n2n: "\<And>n. node_to_notification st n = None"
    by (auto simp: numbered_def)
  have "length (notification_owners st) = num_notifications st"
    using p unfolding planned_def by blast
  then have 2: "notification_owners st = []" using 1 by simp
  have 3: "length (logic_streams st) = 1" using p unfolding planned_def by blast
  have cm: "commands (logic_streams st ! 0) = concat (map (node_commands ss st 0) ?topo)"
    using planned_commands[OF p, of 0] n0 by simp
  have nc: "node_commands ss st 0 n = [Compute n]" if n: "n \<in> set ?topo" for n
  proof -
    from planned_GetNode[OF p, of 0 n] n n0 obtain node where
      node: "GetNode ?g n = Some node" by auto
    then have "input_nodes ?g n = InputNodes node" by (simp add: input_nodes_def)
    with wf_graph_input[OF wf n] have "\<forall>q\<in>set (InputNodes node). q \<in> set ?topo" by simp
    then have "foreign_inputs st 0 node = []" by (simp add: foreign_inputs_def n0)
    then show ?thesis by (simp add: node_commands_Some[OF node] n2n)
  qed
  have "concat (map (node_commands ss st 0) ?topo) = concat (map (\<lambda>n. [Compute n]) ?topo)"
    using nc by (intro arg_cong[where f = concat] map_cong) simp_all
  then have 4: "commands (logic_streams st ! 0) = map Compute ?topo" using cm by simp
  show ?thesis by (intro conjI 1 2 3 nis 4)
qed

section \<open>The plans of the example chain\<close>

lemmas planner_defs =
  ParallelExecutionPlanImpl_def partition_nodes_def partition_step_def initial_state_def
  generate_notifications_def notification_step_def bind_device_streams_def bind_stream_def
  bind_step_def find_stream_def push_device_stream_def set_notification_owners_def owner_step_def
  add_commands_def command_step_def wait_step_def push_command_def
  chain_session_def chain_graph_def all_registered_def cpu_ep_def gpu_ep_def

lemma chain_wf: "wf_graph chain_graph"
  by (simp add: wf_graph_def chain_graph_def output_nodes_def input_nodes_def)

lemma chain_two_streams:
  "ParallelExecutionPlanImpl all_registered chain_session 2 = Inr (chain_plan 2)"
proof -
  have "\<not> isl (ParallelExecutionPlanImpl all_registered chain_session 2)"
    by (simp add: planner_defs upt_rec)
  then show ?thesis by (simp add: chain_plan_def)
qed

lemma chain_one_stream:
  "ParallelExecutionPlanImpl all_registered chain_session 1 = Inr (chain_plan 1)"
proof -
  have "\<not> isl (ParallelExecutionPlanImpl all_registered chain_session 1)"
    by (simp add: planner_defs upt_rec)
  then show ?thesis by (simp add: chain_plan_def)
qed

lemma chain_topo: "GetNodesInTopologicalOrder (GetGraphViewer chain_session) = [0, 1, 2]"
  by (simp add: chain_session_def chain_graph_def)

lemma chain_distinct: "distinct (GetNodesInTopologicalOrder (GetGraphViewer chain_session))"
  by (simp add: chain_topo)

lemma chain_session_wf: "wf_graph (GetGraphViewer chain_session)"
  using chain_wf by (simp add: chain_session_def)

theorem partition_round_robin_total_witness:
  "distinct (GetNodesInTopologicalOrder (GetGraphViewer chain_session)) \<and>
   ParallelExecutionPlanImpl all_registered chain_session 2 = Inr (chain_plan 2) \<and>
   node_stream_map (chain_plan 2) 2 = Some 0 \<and>
   2 \<in> set (nodes_in_stream (chain_plan 2) ! 0) \<and>
   node_stream_map (chain_plan 2) 1 = Some 1 \<and>
   (\<exists>stream. node_to_stream_map (chain_plan 2) 1 = Some stream)"
proof -
  note t = partition_round_robin_total[OF chain_two_streams chain_distinct, unfolded chain_topo]
  from t have a: "\<forall>i<length [0::nat, 1, 2]. node_stream_map (chain_plan 2) ([0, 1, 2] ! i) = Some (i mod nat 2) \<and>
      [0, 1, 2] ! i \<in> set (nodes_in_stream (chain_plan 2) ! (i mod nat 2))"
    by (rule conjunct1)
  from a[rule_format, of 2] have 1: "node_stream_map (chain_plan 2) 2 = Some 0"
    "2 \<in> set (nodes_in_stream (chain_plan 2) ! 0)" by simp_all
  from a[rule_format, of 1] have 2: "node_stream_map (chain_plan 2) 1 = Some 1" by simp
  from t have "\<forall>n\<in>set [0::nat, 1, 2].
      (\<exists>!s. s < nat 2 \<and> n \<in> set (nodes_in_stream (chain_plan 2) ! s)) \<and>
      (\<exists>stream. node_to_stream_map (chain_plan 2) n = Some stream)"
    by (elim conjE)
  then have 3: "\<exists>stream. node_to_stream_map (chain_plan 2) 1 = Some stream" by simp
  show ?thesis by (intro conjI chain_distinct chain_two_streams 1 2 3)
qed

theorem GetComputeStreamForNode_planned_witness:
  "GetComputeStreamForNode (chain_plan 2) 7 = None \<and>
   (\<exists>stream s. GetComputeStreamForNode (chain_plan 2) 1 = Some stream \<and>
      s < length (logic_streams (chain_plan 2)) \<and>
      1 \<in> set (nodes_in_stream (chain_plan 2) ! s) \<and>
      stream \<in> set (device_streams (logic_streams (chain_plan 2) ! s)) \<and>
      provider stream = gpu_ep)"
proof -
  from GetComputeStreamForNode_planned[OF chain_two_streams chain_distinct, of 7]
  have 1: "GetComputeStreamForNode (chain_plan 2) 7 = None" by (simp add: chain_topo)
  from GetComputeStreamForNode_planned[OF chain_two_streams chain_distinct, of 1]
  obtain stream s node ep where o: "GetComputeStreamForNode (chain_plan 2) 1 = Some stream"
    "s < length (logic_streams (chain_plan 2))" "1 \<in> set (nodes_in_stream (chain_plan 2) ! s)"
    "stream \<in> set (device_streams (logic_streams (chain_plan 2) ! s))"
    "GetNode (GetGraphViewer chain_session) 1 = Some node"
    "GetExecutionProviders chain_session (GetExecutionProviderType node) = Some ep"
    "provider stream = ep"
    by (auto simp: chain_topo)
  from o(5,6) have ep: "ep = gpu_ep" by (auto simp: chain_session_def chain_graph_def)
  have 2: "\<exists>stream s. GetComputeStreamForNode (chain_plan 2) 1 = Some stream \<and>
      s < length (logic_streams (chain_plan 2)) \<and>
      1 \<in> set (nodes_in_stream (chain_plan 2) ! s) \<and>
      stream \<in> set (device_streams (logic_streams (chain_plan 2) ! s)) \<and>
      provider stream = gpu_ep"
    using o(1,2,3,4,7) ep by (intro exI[of _ stream] exI[of _ s]) simp
  show ?thesis by (intro conjI 1 2)
qed

theorem notification_indices_in_bounds_witness:
  "\<exists>ctx. new_ExecutionContext (notification_owners (chain_plan 2)) = Inr ctx \<and>
     length (notifications ctx) = length (notification_owners (chain_plan 2))"
proof -
  from notification_indices_in_bounds[OF chain_two_streams chain_distinct]
  obtain ctx where "new_ExecutionContext (notification_owners (chain_plan 2)) = Inr ctx"
    "length (notifications ctx) = length (notification_owners (chain_plan 2))"
    by (elim conjE exE)
  then show ?thesis by (intro exI[of _ ctx]) simp
qed

theorem single_stream_plan_witness:
  "wf_graph (GetGraphViewer chain_session) \<and>
   ParallelExecutionPlanImpl all_registered chain_session 1 = Inr (chain_plan 1) \<and>
   num_notifications (chain_plan 1) = 0 \<and>
   nodes_in_stream (chain_plan 1) = [[0, 1, 2]] \<and>
   commands (logic_streams (chain_plan 1) ! 0) = [Compute 0, Compute 1, Compute 2]"
proof -
  note t = single_stream_plan[OF chain_one_stream chain_session_wf, unfolded chain_topo]
  from t have 1: "num_notifications (chain_plan 1) = 0" by (elim conjE)
  from t have 2: "nodes_in_stream (chain_plan 1) = [[0, 1, 2]]" by (elim conjE)
  from t have 3: "commands (logic_streams (chain_plan 1) ! 0) = [Compute 0, Compute 1, Compute 2]"
    by simp
  show ?thesis by (intro conjI chain_session_wf chain_one_stream 1 2 3)
qed

end
